theory Spec2Isabelle
  imports Main "HOL-Library.AList"
begin

section \<open>The feature cache of PaGraph (storage/storage.py)\<close>

text \<open>
  The class \<open>GraphCacheServer\<close> keeps a subset of the per-node feature rows in device
  memory and gathers, for every layer of a sampled node flow, the rows of the requested
  node ids from the device cache or from the host store.

  The embedding is shallow. A raised exception is a value of \<open>error\<close>; a method that
  mutates the object returns the object after the call together with the exception it
  raised, if any, so that what was written before a raise stays visible. Feature values
  are only copied, never computed with, so their type is a parameter \<open>'a\<close>. Device
  placement (\<open>.cuda(gpuid)\<close>) does not change a value and is not modelled. Node ids and
  cache slots are natural numbers.
\<close>

subsection \<open>Exceptions\<close>

datatype error = IndexError | KeyError | AssertionError | ZeroDivisionError | RuntimeError

text \<open>Sequencing of two steps of which the first may raise.\<close>

definition rbind :: "error + 'x \<Rightarrow> ('x \<Rightarrow> error + 'y) \<Rightarrow> error + 'y" where
  "rbind r f = (case r of Inl e \<Rightarrow> Inl e | Inr x \<Rightarrow> f x)"

text \<open>The object after a call, and the exception the call raised (\<open>None\<close>: it returned).\<close>

type_synonym 's outcome = "'s \<times> error option"

subsection \<open>Tensors and dictionaries\<close>

text \<open>
  A two-dimensional tensor: \<open>size(0)\<close> is the number of rows, \<open>size(1)\<close> the width of a
  row (kept apart from the rows, since a tensor without rows still has a width).
\<close>

record 'a tensor =
  size1 :: nat
  rows :: "'a list list"

definition size0 :: "'a tensor \<Rightarrow> nat" where
  "size0 t = length (rows t)"

text \<open>A dictionary from field names to values, in insertion order.\<close>

type_synonym 'v dict = "(string \<times> 'v) list"

type_synonym 'a frame = "'a tensor dict"

text \<open>\<open>d[k]\<close> read: raises KeyError for a missing key.\<close>

definition getitem :: "'v dict \<Rightarrow> string \<Rightarrow> error + 'v" where
  "getitem d k = (case map_of d k of None \<Rightarrow> Inl KeyError | Some v \<Rightarrow> Inr v)"

text \<open>\<open>xs[idx]\<close> with an index tensor \<open>idx\<close>: raises when an index is out of range.\<close>

definition index1 :: "'x list \<Rightarrow> nat list \<Rightarrow> error + 'x list" where
  "index1 xs idx =
     (if list_all (\<lambda>i. i < length xs) idx then Inr (map (\<lambda>i. xs ! i) idx) else Inl IndexError)"

definition index_rows :: "'a tensor \<Rightarrow> nat list \<Rightarrow> error + 'a tensor" where
  "index_rows t idx = rbind (index1 (rows t) idx) (\<lambda>rs. Inr \<lparr>size1 = size1 t, rows = rs\<rparr>)"

text \<open>\<open>xs[mask]\<close> with a boolean mask: the entries at the true positions, in order.\<close>

definition masked_select :: "'x list \<Rightarrow> bool list \<Rightarrow> 'x list" where
  "masked_select xs msk = map fst (filter snd (zip xs msk))"

text \<open>
  \<open>dst[mask] = src\<close> on rows: the true positions of the mask receive the rows of \<open>src\<close>
  in order; the other rows stay.
\<close>

fun masked_assign :: "'r list \<Rightarrow> bool list \<Rightarrow> 'r list \<Rightarrow> 'r list" where
  "masked_assign (d # ds) (True # ms) (s # ss) = s # masked_assign ds ms ss"
| "masked_assign (d # ds) (False # ms) ss = d # masked_assign ds ms ss"
| "masked_assign ds ms ss = ds"

text \<open>
  The same on tensors. The widths must agree, except that a source of width 1 is
  broadcast along the row; any other width raises.
\<close>

definition masked_put :: "'a tensor \<Rightarrow> bool list \<Rightarrow> 'a tensor \<Rightarrow> error + 'a tensor" where
  "masked_put dst msk src =
     (if size1 src = size1 dst then
        Inr (dst\<lparr>rows := masked_assign (rows dst) msk (rows src)\<rparr>)
      else if size1 src = 1 then
        Inr (dst\<lparr>rows := masked_assign (rows dst) msk
                      (map (\<lambda>r. concat (map (replicate (size1 dst)) r)) (rows src))\<rparr>)
      else Inl RuntimeError)"

text \<open>\<open>xs[idx] = vs\<close> and \<open>xs[idx] = v\<close>, the indices already checked to be in range.\<close>

fun index_put :: "'x list \<Rightarrow> nat list \<Rightarrow> 'x list \<Rightarrow> 'x list" where
  "index_put xs (i # js) (v # vs) = index_put (xs[i := v]) js vs"
| "index_put xs js vs = xs"

definition index_fill :: "'x list \<Rightarrow> nat list \<Rightarrow> 'x \<Rightarrow> 'x list" where
  "index_fill xs idx v = fold (\<lambda>i ys. ys[i := v]) idx xs"

text \<open>\<open>xs[:c]\<close>: a negative \<open>c\<close> counts from the end.\<close>

definition slice_to :: "int \<Rightarrow> 'x list \<Rightarrow> 'x list" where
  "slice_to c xs = (if 0 \<le> c then take (nat c) xs else take (length xs - nat (- c)) xs)"

text \<open>
  \<open>int(a / b)\<close> for integers \<open>a\<close> and \<open>b > 0\<close>: Python divides in floating point and
  \<open>int\<close> drops the fraction, towards zero. For two integers below \<open>2^52\<close> in magnitude
  the rounded quotient has the integer part of the exact quotient, which is what this
  function computes; byte counts of device memory are in that range.
\<close>

definition int_truediv :: "int \<Rightarrow> int \<Rightarrow> int" where
  "int_truediv a b = (if 0 \<le> a then a div b else - ((- a) div b))"

subsection \<open>The cache server\<close>

record 'a GraphCacheServer =
  graph :: "'a frame"
  gpuid :: nat
  node_num :: nat
  nid_map :: "nat list"
  cpu_flag :: "bool list"
  gpu_flag :: "bool list"
  cached_num :: nat
  capability :: int
  full_cached :: bool
  dims :: "nat dict"
  total_dim :: nat
  gpu_fix_cache :: "'a frame"
  localid2cacheid :: "nat list"

text \<open>
  \<open>graph\<close> stands for \<open>graph._node_frame\<close>, the host store: one tensor per field, its
  rows addressed by the id of a node in the full graph.
\<close>

definition init :: "'a frame \<Rightarrow> nat \<Rightarrow> nat list \<Rightarrow> nat \<Rightarrow> 'a GraphCacheServer" where
  "init g n m gid =
     \<lparr>graph = g, gpuid = gid, node_num = n, nid_map = m,
      cpu_flag = replicate n True, gpu_flag = replicate n False,
      cached_num = 0, capability = int n, full_cached = False,
      dims = [], total_dim = 0, gpu_fix_cache = [],
      localid2cacheid = replicate n 0\<rparr>"

subsection \<open>get_feat_from_server\<close>

text \<open>\<open>graph._node_frame[index]\<close>: the rows at the given ids, of every column.\<close>

fun select_rows :: "'a frame \<Rightarrow> nat list \<Rightarrow> error + 'a frame" where
  "select_rows [] idx = Inr []"
| "select_rows ((name, t) # cols) idx =
     rbind (index_rows t idx) (\<lambda>t'.
     rbind (select_rows cols idx) (\<lambda>cols'. Inr ((name, t') # cols')))"

text \<open>The loop \<open>for name in embed_names: data_frame[name] = cpu_frame[name]\<close>.\<close>

fun collect_fields :: "'a frame \<Rightarrow> string list \<Rightarrow> 'a frame \<Rightarrow> error + 'a frame" where
  "collect_fields cpu_frame [] data_frame = Inr data_frame"
| "collect_fields cpu_frame (name # names) data_frame =
     rbind (getitem cpu_frame name) (\<lambda>t.
     collect_fields cpu_frame names (AList.update name t data_frame))"

definition get_feat_from_server ::
  "'a GraphCacheServer \<Rightarrow> nat list \<Rightarrow> string list \<Rightarrow> bool \<Rightarrow> error + 'a frame" where
  "get_feat_from_server st nids embed_names to_gpu =
     rbind (index1 (nid_map st) nids) (\<lambda>nids_in_full.
     rbind (select_rows (graph st) nids_in_full) (\<lambda>cpu_frame.
     collect_fields cpu_frame embed_names []))"

subsection \<open>init_field\<close>

fun learn_dims ::
  "'a frame \<Rightarrow> string list \<Rightarrow> 'a GraphCacheServer \<Rightarrow> 'a GraphCacheServer outcome" where
  "learn_dims feats [] st = (st, None)"
| "learn_dims feats (name # names) st =
     (case getitem feats name of
        Inl e \<Rightarrow> (st, Some e)
      | Inr t \<Rightarrow>
          learn_dims feats names
            (st\<lparr>dims := AList.update name (size1 t) (dims st),
                total_dim := total_dim st + size1 t\<rparr>))"

definition init_field ::
  "'a GraphCacheServer \<Rightarrow> string list \<Rightarrow> 'a GraphCacheServer outcome" where
  "init_field st embed_names =
     (case get_feat_from_server st [0] embed_names False of
        Inl e \<Rightarrow> (st, Some e)
      | Inr feats \<Rightarrow> learn_dims feats embed_names (st\<lparr>total_dim := 0\<rparr>))"

subsection \<open>cache_fix_data\<close>

text \<open>The loop over the fields of \<open>data\<close>: the assertion, then the two stores.\<close>

fun store_fields ::
  "nat \<Rightarrow> 'a frame \<Rightarrow> 'a GraphCacheServer \<Rightarrow> 'a GraphCacheServer outcome" where
  "store_fields nrows [] st = (st, None)"
| "store_fields nrows ((name, t) # data) st =
     (if nrows \<noteq> size0 t then (st, Some AssertionError)
      else store_fields nrows data
             (st\<lparr>dims := AList.update name (size1 t) (dims st),
                 gpu_fix_cache := AList.update name t (gpu_fix_cache st)\<rparr>))"

definition cache_fix_data ::
  "'a GraphCacheServer \<Rightarrow> nat list \<Rightarrow> 'a frame \<Rightarrow> bool \<Rightarrow> 'a GraphCacheServer outcome" where
  "cache_fix_data st nids data is_full =
     (let nrows = length nids in
      if \<not> list_all (\<lambda>i. i < length (localid2cacheid st)) nids then (st, Some IndexError)
      else
        (case store_fields nrows data
                (st\<lparr>localid2cacheid := index_put (localid2cacheid st) nids [0..<nrows],
                    cached_num := nrows\<rparr>) of
           (st2, Some e) \<Rightarrow> (st2, Some e)
         | (st2, None) \<Rightarrow>
             if \<not> list_all (\<lambda>i. i < length (cpu_flag st2)) nids then (st2, Some IndexError)
             else if \<not> list_all (\<lambda>i. i < length (gpu_flag st2)) nids then
               (st2\<lparr>cpu_flag := index_fill (cpu_flag st2) nids False\<rparr>, Some IndexError)
             else
               (st2\<lparr>cpu_flag := index_fill (cpu_flag st2) nids False,
                    gpu_flag := index_fill (gpu_flag st2) nids True,
                    full_cached := is_full\<rparr>, None)))"

subsection \<open>auto_cache\<close>

text \<open>
  The two readings of the device (\<open>max_memory_allocated\<close>, \<open>total_memory\<close>), the
  out-degrees of the local graph and \<open>torch.argsort(_, descending=True)\<close> are parameters.
\<close>

definition auto_cache ::
  "(nat list \<Rightarrow> nat list) \<Rightarrow> int \<Rightarrow> int \<Rightarrow> 'a GraphCacheServer \<Rightarrow> nat list \<Rightarrow> string list
     \<Rightarrow> 'a GraphCacheServer outcome" where
  "auto_cache argsort peak_allocated_mem total_mem st out_degrees embed_names =
     (let available = total_mem - peak_allocated_mem - 512 * 1024 * 1024 in
      if total_dim st * 4 = 0 then (st, Some ZeroDivisionError)
      else
        let st1 = st\<lparr>capability := int_truediv available (int (total_dim st * 4))\<rparr> in
        if capability st1 > int (node_num st1) then
          (let full_nids = [0..<node_num st1] in
           case get_feat_from_server st1 full_nids embed_names False of
             Inl e \<Rightarrow> (st1, Some e)
           | Inr data_frame \<Rightarrow> cache_fix_data st1 full_nids data_frame True)
        else
          (let sort_nid = argsort out_degrees;
               cache_nid = slice_to (capability st1) sort_nid in
           case get_feat_from_server st1 cache_nid embed_names False of
             Inl e \<Rightarrow> (st1, Some e)
           | Inr data_frame \<Rightarrow> cache_fix_data st1 cache_nid data_frame False))"

subsection \<open>fetch_data and fetch_from_cache\<close>

text \<open>
  A node flow: the parent node ids of every layer, and the feature frame of every layer.
\<close>

record 'a nodeflow =
  layer_parent_nid :: "nat list list"
  node_frames :: "'a frame list"

definition num_layers :: "'a nodeflow \<Rightarrow> nat" where
  "num_layers nf = length (layer_parent_nid nf)"

text \<open>
  \<open>torch.cuda.FloatTensor(n, d)\<close> allocates without initialising; \<open>u\<close> stands for
  whatever the memory held.
\<close>

definition alloc :: "'a \<Rightarrow> nat \<Rightarrow> nat \<Rightarrow> 'a tensor" where
  "alloc u n d = \<lparr>size1 = d, rows = replicate n (replicate d u)\<rparr>"

text \<open>The loop \<open>for name in self.dims\<close> of the device branch.\<close>

fun fill_from_gpu ::
  "'a GraphCacheServer \<Rightarrow> nat list \<Rightarrow> bool list \<Rightarrow> string list \<Rightarrow> 'a frame \<Rightarrow> error + 'a frame"
  where
  "fill_from_gpu st nids_in_gpu gpu_mask [] frame = Inr frame"
| "fill_from_gpu st nids_in_gpu gpu_mask (name # names) frame =
     rbind (index1 (localid2cacheid st) nids_in_gpu) (\<lambda>cacheid.
     rbind (getitem (gpu_fix_cache st) name) (\<lambda>c.
     rbind (index_rows c cacheid) (\<lambda>src.
     rbind (getitem frame name) (\<lambda>dst.
     rbind (masked_put dst gpu_mask src) (\<lambda>dst'.
     fill_from_gpu st nids_in_gpu gpu_mask names (AList.update name dst' frame))))))"

text \<open>The loop \<open>for name in self.dims\<close> of the host branch.\<close>

fun fill_from_cpu ::
  "'a frame \<Rightarrow> bool list \<Rightarrow> string list \<Rightarrow> 'a frame \<Rightarrow> error + 'a frame" where
  "fill_from_cpu cpu_data_frame cpu_mask [] frame = Inr frame"
| "fill_from_cpu cpu_data_frame cpu_mask (name # names) frame =
     rbind (getitem cpu_data_frame name) (\<lambda>src.
     rbind (getitem frame name) (\<lambda>dst.
     rbind (masked_put dst cpu_mask src) (\<lambda>dst'.
     fill_from_cpu cpu_data_frame cpu_mask names (AList.update name dst' frame))))"

text \<open>The body of the loop of \<open>fetch_data\<close>: the frame of one layer.\<close>

definition fetch_layer :: "'a \<Rightarrow> 'a GraphCacheServer \<Rightarrow> nat list \<Rightarrow> error + 'a frame" where
  "fetch_layer u st tnid =
     rbind (index1 (gpu_flag st) tnid) (\<lambda>gpu_mask.
     let nids_in_gpu = masked_select tnid gpu_mask in
     rbind (index1 (cpu_flag st) tnid) (\<lambda>cpu_mask.
     let nids_in_cpu = masked_select tnid cpu_mask;
         frame = map (\<lambda>(name, d). (name, alloc u (length tnid) d)) (dims st) in
     rbind (if length nids_in_gpu \<noteq> 0
            then fill_from_gpu st nids_in_gpu gpu_mask (map fst (dims st)) frame
            else Inr frame) (\<lambda>frame1.
     if length nids_in_cpu \<noteq> 0 then
       rbind (get_feat_from_server st nids_in_cpu (map fst (dims st)) True) (\<lambda>cpu_data_frame.
       fill_from_cpu cpu_data_frame cpu_mask (map fst (dims st)) frame1)
     else Inr frame1)))"

text \<open>The body of the loop of \<open>fetch_from_cache\<close>.\<close>

fun cache_rows :: "'a frame \<Rightarrow> nat list \<Rightarrow> error + 'a frame" where
  "cache_rows [] tnid = Inr []"
| "cache_rows ((name, c) # cache) tnid =
     rbind (index_rows c tnid) (\<lambda>t.
     rbind (cache_rows cache tnid) (\<lambda>frame. Inr ((name, t) # frame)))"

definition cache_layer :: "'a GraphCacheServer \<Rightarrow> nat list \<Rightarrow> error + 'a frame" where
  "cache_layer st tnid = cache_rows (gpu_fix_cache st) tnid"

text \<open>
  The loops \<open>for i in range(nodeflow.num_layers)\<close>. They run on the server and the node
  flow together, as the method does; an exception leaves the frames written so far.
\<close>

fun general_loop ::
  "'a \<Rightarrow> nat list \<Rightarrow> 'a GraphCacheServer \<times> 'a nodeflow
     \<Rightarrow> ('a GraphCacheServer \<times> 'a nodeflow) outcome" where
  "general_loop u [] (st, nf) = ((st, nf), None)"
| "general_loop u (i # js) (st, nf) =
     (case fetch_layer u st (layer_parent_nid nf ! i) of
        Inl e \<Rightarrow> ((st, nf), Some e)
      | Inr frame \<Rightarrow>
          if i < length (node_frames nf)
          then general_loop u js (st, nf\<lparr>node_frames := (node_frames nf)[i := frame]\<rparr>)
          else ((st, nf), Some IndexError))"

fun cache_loop ::
  "nat list \<Rightarrow> 'a GraphCacheServer \<times> 'a nodeflow
     \<Rightarrow> ('a GraphCacheServer \<times> 'a nodeflow) outcome" where
  "cache_loop [] (st, nf) = ((st, nf), None)"
| "cache_loop (i # js) (st, nf) =
     (case cache_layer st (layer_parent_nid nf ! i) of
        Inl e \<Rightarrow> ((st, nf), Some e)
      | Inr frame \<Rightarrow>
          if i < length (node_frames nf)
          then cache_loop js (st, nf\<lparr>node_frames := (node_frames nf)[i := frame]\<rparr>)
          else ((st, nf), Some IndexError))"

definition fetch_from_cache ::
  "'a GraphCacheServer \<times> 'a nodeflow \<Rightarrow> ('a GraphCacheServer \<times> 'a nodeflow) outcome" where
  "fetch_from_cache w = cache_loop [0..<num_layers (snd w)] w"

text \<open>The general path of \<open>fetch_data\<close>: its loop, without the dispatch before it.\<close>

definition fetch_general ::
  "'a \<Rightarrow> 'a GraphCacheServer \<times> 'a nodeflow \<Rightarrow> ('a GraphCacheServer \<times> 'a nodeflow) outcome"
  where
  "fetch_general u w = general_loop u [0..<num_layers (snd w)] w"

definition fetch_data ::
  "'a \<Rightarrow> 'a GraphCacheServer \<times> 'a nodeflow \<Rightarrow> ('a GraphCacheServer \<times> 'a nodeflow) outcome"
  where
  "fetch_data u w = (if full_cached (fst w) then fetch_from_cache w else fetch_general u w)"

subsection \<open>Invariants of the server\<close>

text \<open>
  Every local id is on exactly one side: the two flag arrays have \<open>node_num\<close> entries
  and differ at every id.
\<close>

definition flags_partition :: "'a GraphCacheServer \<Rightarrow> bool" where
  "flags_partition st =
     (length (cpu_flag st) = node_num st \<and> length (gpu_flag st) = node_num st \<and>
      list_all (\<lambda>i. cpu_flag st ! i \<noteq> gpu_flag st ! i) [0..<node_num st])"

text \<open>The three arrays indexed by local id have \<open>node_num\<close> entries.\<close>

definition arrays_sized :: "'a GraphCacheServer \<Rightarrow> bool" where
  "arrays_sized st =
     (length (cpu_flag st) = node_num st \<and> length (gpu_flag st) = node_num st \<and>
      length (localid2cacheid st) = node_num st)"

text \<open>
  The host store serves every local id: the id has a global id, and every column of the
  store has a row for that global id.
\<close>

definition store_serves :: "'a GraphCacheServer \<Rightarrow> bool" where
  "store_serves st =
     list_all (\<lambda>i. i < length (nid_map st) \<and>
                   list_all (\<lambda>p. nid_map st ! i < size0 (snd p)) (graph st))
       [0..<node_num st]"

text \<open>
  The rows of a column of the store at the global ids of the given local ids, in the
  order of the ids: what the store itself holds for them.
\<close>

definition gather :: "nat list \<Rightarrow> nat list \<Rightarrow> 'a tensor \<Rightarrow> 'a tensor" where
  "gather m ids c = \<lparr>size1 = size1 c, rows = map (\<lambda>i. rows c ! (m ! i)) ids\<rparr>"

text \<open>
  The cache is consistent with the index: \<open>dims\<close> records the widths of the device
  buffers, field by field, and the slot of every id on the device is a row of every buffer.
\<close>

definition cache_consistent :: "'a GraphCacheServer \<Rightarrow> bool" where
  "cache_consistent st =
     (arrays_sized st \<and> flags_partition st \<and>
      dims st = map (\<lambda>(name, c). (name, size1 c)) (gpu_fix_cache st) \<and>
      distinct (map fst (gpu_fix_cache st)) \<and>
      list_all (\<lambda>i. gpu_flag st ! i \<longrightarrow>
                  list_all (\<lambda>p. localid2cacheid st ! i < size0 (snd p)) (gpu_fix_cache st))
        [0..<node_num st])"

text \<open>The store has every cached field, with the width of the device buffer.\<close>

definition store_has_cache_fields :: "'a GraphCacheServer \<Rightarrow> bool" where
  "store_has_cache_fields st =
     list_all (\<lambda>(name, c). case map_of (graph st) name of
                              None \<Rightarrow> False | Some s \<Rightarrow> size1 s = size1 c)
       (gpu_fix_cache st)"

text \<open>
  The cache mirrors the store: the slot of every id on the device holds, in every buffer,
  the row that the store has for the global id of that id.
\<close>

definition cache_mirrors_store :: "'a GraphCacheServer \<Rightarrow> bool" where
  "cache_mirrors_store st =
     list_all (\<lambda>i. gpu_flag st ! i \<longrightarrow>
        list_all (\<lambda>(name, c). case map_of (graph st) name of
                    None \<Rightarrow> False
                  | Some s \<Rightarrow> rows c ! (localid2cacheid st ! i) = rows s ! (nid_map st ! i))
          (gpu_fix_cache st))
       [0..<node_num st]"

text \<open>
  The layout that the full path of \<open>auto_cache\<close> leaves: every id on the device and in
  the slot of its own number, and buffers with a row for every id.
\<close>

definition full_layout :: "'a GraphCacheServer \<Rightarrow> bool" where
  "full_layout st =
     (arrays_sized st \<and>
      list_all (\<lambda>i. gpu_flag st ! i \<and> \<not> cpu_flag st ! i \<and> localid2cacheid st ! i = i)
        [0..<node_num st] \<and>
      dims st = map (\<lambda>(name, c). (name, size1 c)) (gpu_fix_cache st) \<and>
      distinct (map fst (gpu_fix_cache st)) \<and>
      list_all (\<lambda>p. node_num st \<le> size0 (snd p)) (gpu_fix_cache st))"

subsection \<open>What is assumed of torch.argsort\<close>

text \<open>
  The sort is taken as a function of the values: the same values give the same order.
  With \<open>descending=True\<close> the result is a permutation of the positions, and the values
  at these positions do not increase. Which order it gives to equal values is left open.
\<close>

definition sorts_descending :: "(nat list \<Rightarrow> nat list) \<Rightarrow> nat list \<Rightarrow> bool" where
  "sorts_descending argsort ds =
     (sort (argsort ds) = [0..<length ds] \<and>
      sorted_wrt (\<lambda>a b. b \<le> a) (map (\<lambda>i. ds ! i) (argsort ds)))"

subsection \<open>A small instance\<close>

text \<open>
  Five nodes with one field of width 2, the local ids mapped to the global ids in reverse,
  and a sort of the ids by descending degree that keeps equal degrees in ascending id
  order, as one admissible result of \<open>torch.argsort(_, descending=True)\<close>.
\<close>

definition argsort_desc :: "nat list \<Rightarrow> nat list" where
  "argsort_desc ds = sort_key (\<lambda>i. - int (ds ! i)) [0..<length ds]"

definition store5 :: "int frame" where
  "store5 = [(''features'', \<lparr>size1 = 2, rows = [[10,11],[20,21],[30,31],[40,41],[50,51]]\<rparr>)]"

definition server5 :: "int GraphCacheServer" where
  "server5 = fst (init_field (init store5 5 [4,3,2,1,0] 0) [''features''])"

text \<open>The instance after a partial and after a full population.\<close>

definition partial5 :: "int GraphCacheServer" where
  "partial5 = fst (auto_cache argsort_desc 8 536870936 server5 [3, 0, 5, 1, 2] [''features''])"

definition full5 :: "int GraphCacheServer" where
  "full5 = fst (auto_cache argsort_desc 8 536870968 server5 [3, 0, 5, 1, 2] [''features''])"

section \<open>Properties\<close>

subsection \<open>Index updates\<close>

lemma length_index_fill [simp]: "length (index_fill xs idx v) = length xs"
proof -
  have "length (fold (\<lambda>i ys. ys[i := v]) idx xs) = length xs"
    by (induction idx arbitrary: xs) auto
  then show ?thesis by (simp add: index_fill_def)
qed

lemma nth_index_fill:
  "i < length xs \<Longrightarrow> index_fill xs idx v ! i = (if i \<in> set idx then v else xs ! i)"
proof -
  have "i < length xs \<Longrightarrow>
        fold (\<lambda>i ys. ys[i := v]) idx xs ! i = (if i \<in> set idx then v else xs ! i)" for xs
  proof (induction idx arbitrary: xs)
    case Nil
    then show ?case by simp
  next
    case (Cons j idx)
    have "fold (\<lambda>i ys. ys[i := v]) idx (xs[j := v]) ! i
            = (if i \<in> set idx then v else xs[j := v] ! i)"
      using Cons.IH [of "xs[j := v]"] Cons.prems by simp
    then show ?case using Cons.prems by (auto simp: nth_list_update)
  qed
  then show "i < length xs \<Longrightarrow> ?thesis" by (simp add: index_fill_def)
qed

lemma length_index_put [simp]: "length (index_put xs idx vs) = length xs"
  by (induction xs idx vs rule: index_put.induct) auto

lemma nth_index_put_other:
  "i \<notin> set idx \<Longrightarrow> index_put xs idx vs ! i = xs ! i"
  by (induction xs idx vs rule: index_put.induct) (auto simp: nth_list_update)

lemma nth_index_put_distinct:
  "distinct idx \<Longrightarrow> length vs = length idx \<Longrightarrow> list_all (\<lambda>i. i < length xs) idx \<Longrightarrow>
   map (\<lambda>i. index_put xs idx vs ! i) idx = vs"
proof (induction xs idx vs rule: index_put.induct)
  case (1 xs i js v vs)
  have "index_put (xs[i := v]) js vs ! i = (xs[i := v]) ! i"
    using 1 by (intro nth_index_put_other) simp
  then show ?case using 1 by simp
qed auto

subsection \<open>What each method leaves alone\<close>

lemma store_fields_keeps:
  "graph (fst (store_fields n data st)) = graph st"
  "node_num (fst (store_fields n data st)) = node_num st"
  "nid_map (fst (store_fields n data st)) = nid_map st"
  "cpu_flag (fst (store_fields n data st)) = cpu_flag st"
  "gpu_flag (fst (store_fields n data st)) = gpu_flag st"
  "cached_num (fst (store_fields n data st)) = cached_num st"
  "capability (fst (store_fields n data st)) = capability st"
  "full_cached (fst (store_fields n data st)) = full_cached st"
  "total_dim (fst (store_fields n data st)) = total_dim st"
  "localid2cacheid (fst (store_fields n data st)) = localid2cacheid st"
  by (induction n data st rule: store_fields.induct; simp)+

lemma store_fields_error:
  "snd (store_fields n data st) =
     (if list_all (\<lambda>p. size0 (snd p) = n) data then None else Some AssertionError)"
  by (induction n data st rule: store_fields.induct) auto

lemma learn_dims_keeps:
  "graph (fst (learn_dims feats names st)) = graph st"
  "node_num (fst (learn_dims feats names st)) = node_num st"
  "nid_map (fst (learn_dims feats names st)) = nid_map st"
  "cpu_flag (fst (learn_dims feats names st)) = cpu_flag st"
  "gpu_flag (fst (learn_dims feats names st)) = gpu_flag st"
  "cached_num (fst (learn_dims feats names st)) = cached_num st"
  "capability (fst (learn_dims feats names st)) = capability st"
  "full_cached (fst (learn_dims feats names st)) = full_cached st"
  "gpu_fix_cache (fst (learn_dims feats names st)) = gpu_fix_cache st"
  "localid2cacheid (fst (learn_dims feats names st)) = localid2cacheid st"
  by (induction feats names st rule: learn_dims.induct; simp split: sum.splits)+

lemma init_field_keeps:
  "graph (fst (init_field st names)) = graph st"
  "node_num (fst (init_field st names)) = node_num st"
  "nid_map (fst (init_field st names)) = nid_map st"
  "cpu_flag (fst (init_field st names)) = cpu_flag st"
  "gpu_flag (fst (init_field st names)) = gpu_flag st"
  "cached_num (fst (init_field st names)) = cached_num st"
  "capability (fst (init_field st names)) = capability st"
  "full_cached (fst (init_field st names)) = full_cached st"
  "gpu_fix_cache (fst (init_field st names)) = gpu_fix_cache st"
  "localid2cacheid (fst (init_field st names)) = localid2cacheid st"
  by (simp_all add: init_field_def learn_dims_keeps split: sum.splits)

lemma cache_fix_data_keeps:
  "graph (fst (cache_fix_data st nids data f)) = graph st"
  "node_num (fst (cache_fix_data st nids data f)) = node_num st"
  "nid_map (fst (cache_fix_data st nids data f)) = nid_map st"
  "capability (fst (cache_fix_data st nids data f)) = capability st"
  "total_dim (fst (cache_fix_data st nids data f)) = total_dim st"
proof -
  let ?st1 = "st\<lparr>localid2cacheid := index_put (localid2cacheid st) nids [0..<length nids],
         cached_num := length nids\<rparr>"
  obtain st2 r where sf: "store_fields (length nids) data ?st1 = (st2, r)"
    by (cases "store_fields (length nids) data ?st1")
  have k: "graph st2 = graph st" "node_num st2 = node_num st" "nid_map st2 = nid_map st"
    "capability st2 = capability st" "total_dim st2 = total_dim st"
    using store_fields_keeps(1,2,3,7,9) [of "length nids" data ?st1] sf by simp_all
  show "graph (fst (cache_fix_data st nids data f)) = graph st"
    "node_num (fst (cache_fix_data st nids data f)) = node_num st"
    "nid_map (fst (cache_fix_data st nids data f)) = nid_map st"
    "capability (fst (cache_fix_data st nids data f)) = capability st"
    "total_dim (fst (cache_fix_data st nids data f)) = total_dim st"
    using sf k by (auto simp: cache_fix_data_def Let_def split: option.splits)
qed

lemma cache_fix_data_error:
  "snd (cache_fix_data st nids data f) =
     (if \<not> list_all (\<lambda>i. i < length (localid2cacheid st)) nids then Some IndexError
      else if \<not> list_all (\<lambda>p. size0 (snd p) = length nids) data then Some AssertionError
      else if \<not> list_all (\<lambda>i. i < length (cpu_flag st)) nids then Some IndexError
      else if \<not> list_all (\<lambda>i. i < length (gpu_flag st)) nids then Some IndexError
      else None)"
proof -
  let ?st1 = "st\<lparr>localid2cacheid := index_put (localid2cacheid st) nids [0..<length nids],
         cached_num := length nids\<rparr>"
  obtain st2 r where sf: "store_fields (length nids) data ?st1 = (st2, r)"
    by (cases "store_fields (length nids) data ?st1")
  have k: "cpu_flag st2 = cpu_flag st" "gpu_flag st2 = gpu_flag st"
    using store_fields_keeps(4,5) [of "length nids" data ?st1] sf by simp_all
  have r: "r = (if list_all (\<lambda>p. size0 (snd p) = length nids) data then None
                else Some AssertionError)"
    using store_fields_error [of "length nids" data ?st1] sf by simp
  show ?thesis
    using sf k r by (auto simp: cache_fix_data_def Let_def split: option.splits)
qed

lemma cache_fix_data_slots:
  assumes "snd (cache_fix_data st nids data f) = None"
  shows "localid2cacheid (fst (cache_fix_data st nids data f))
           = index_put (localid2cacheid st) nids [0..<length nids]"
    and "cached_num (fst (cache_fix_data st nids data f)) = length nids"
    and "cpu_flag (fst (cache_fix_data st nids data f)) = index_fill (cpu_flag st) nids False"
    and "gpu_flag (fst (cache_fix_data st nids data f)) = index_fill (gpu_flag st) nids True"
    and "full_cached (fst (cache_fix_data st nids data f)) = f"
proof -
  let ?st1 = "st\<lparr>localid2cacheid := index_put (localid2cacheid st) nids [0..<length nids],
         cached_num := length nids\<rparr>"
  obtain st2 r where sf: "store_fields (length nids) data ?st1 = (st2, r)"
    by (cases "store_fields (length nids) data ?st1")
  have k: "cpu_flag st2 = cpu_flag st" "gpu_flag st2 = gpu_flag st"
    "localid2cacheid st2 = index_put (localid2cacheid st) nids [0..<length nids]"
    "cached_num st2 = length nids"
    using store_fields_keeps(4,5,10,6) [of "length nids" data ?st1] sf by simp_all
  show "localid2cacheid (fst (cache_fix_data st nids data f))
           = index_put (localid2cacheid st) nids [0..<length nids]"
    and "cached_num (fst (cache_fix_data st nids data f)) = length nids"
    and "cpu_flag (fst (cache_fix_data st nids data f)) = index_fill (cpu_flag st) nids False"
    and "gpu_flag (fst (cache_fix_data st nids data f)) = index_fill (gpu_flag st) nids True"
    and "full_cached (fst (cache_fix_data st nids data f)) = f"
    using assms sf k
    by (auto simp: cache_fix_data_def Let_def split: option.splits if_splits)
qed


lemma partial5_eq:
  "partial5 = \<lparr>graph = store5, gpuid = 0, node_num = 5, nid_map = [4, 3, 2, 1, 0],
     cpu_flag = [False, True, False, True, True],
     gpu_flag = [True, False, True, False, False], cached_num = 2,
     capability = 2, full_cached = False, dims = [(''features'', 2)],
     total_dim = 2,
     gpu_fix_cache = [(''features'', \<lparr>size1 = 2, rows = [[30, 31], [50, 51]]\<rparr>)],
     localid2cacheid = [1, 0, 0, 0, 0]\<rparr>"
  by code_simp

lemma full5_eq:
  "full5 = \<lparr>graph = store5, gpuid = 0, node_num = 5, nid_map = [4, 3, 2, 1, 0],
     cpu_flag = [False, False, False, False, False],
     gpu_flag = [True, True, True, True, True], cached_num = 5,
     capability = 6, full_cached = True, dims = [(''features'', 2)],
     total_dim = 2,
     gpu_fix_cache = [(''features'',
         \<lparr>size1 = 2, rows = [[50, 51], [40, 41], [30, 31], [20, 21], [10, 11]]\<rparr>)],
     localid2cacheid = [0, 1, 2, 3, 4]\<rparr>"
  by code_simp

subsection \<open>What population stores\<close>

lemma store_fields_dims:
  "list_all (\<lambda>p. size0 (snd p) = n) data \<Longrightarrow> distinct (map fst data) \<Longrightarrow>
   map_of (dims (fst (store_fields n data st))) k =
     (case map_of data k of Some t \<Rightarrow> Some (size1 t) | None \<Rightarrow> map_of (dims st) k)"
proof (induction n data st rule: store_fields.induct)
  case (1 nrows st)
  then show ?case by simp
next
  case (2 nrows name t data st)
  have nk: "map_of data name = None"
    using 2(3) by (simp add: map_of_eq_None_iff)
  show ?case
    using 2 nk by (auto simp: update_conv' split: option.splits)
qed

lemma store_fields_cache:
  "list_all (\<lambda>p. size0 (snd p) = n) data \<Longrightarrow> distinct (map fst data) \<Longrightarrow>
   map_of (gpu_fix_cache (fst (store_fields n data st))) k =
     (case map_of data k of Some t \<Rightarrow> Some t | None \<Rightarrow> map_of (gpu_fix_cache st) k)"
proof (induction n data st rule: store_fields.induct)
  case (1 nrows st)
  then show ?case by simp
next
  case (2 nrows name t data st)
  have nk: "map_of data name = None"
    using 2(3) by (simp add: map_of_eq_None_iff)
  show ?case
    using 2 nk by (auto simp: update_conv' split: option.splits)
qed

lemma cache_fix_data_dims:
  assumes "snd (cache_fix_data st nids data f) = None"
  shows "dims (fst (cache_fix_data st nids data f))
           = dims (fst (store_fields (length nids) data
               (st\<lparr>localid2cacheid := index_put (localid2cacheid st) nids [0..<length nids],
                   cached_num := length nids\<rparr>)))"
    and "gpu_fix_cache (fst (cache_fix_data st nids data f))
           = gpu_fix_cache (fst (store_fields (length nids) data
               (st\<lparr>localid2cacheid := index_put (localid2cacheid st) nids [0..<length nids],
                   cached_num := length nids\<rparr>)))"
  using assms
  by (auto simp: cache_fix_data_def Let_def split: option.splits if_splits prod.splits)

subsection \<open>Reading the host store\<close>

lemma index1_ok:
  "list_all (\<lambda>i. i < length xs) idx \<Longrightarrow> index1 xs idx = Inr (map (\<lambda>i. xs ! i) idx)"
  by (simp add: index1_def)

lemma index_rows_ok:
  "list_all (\<lambda>i. i < size0 t) idx \<Longrightarrow>
   index_rows t idx = Inr \<lparr>size1 = size1 t, rows = map (\<lambda>i. rows t ! i) idx\<rparr>"
  by (simp add: index_rows_def index1_def rbind_def size0_def)

lemma select_rows_ok:
  "list_all (\<lambda>p. list_all (\<lambda>i. i < size0 (snd p)) idx) cols \<Longrightarrow>
   select_rows cols idx =
     Inr (map (\<lambda>(name, c). (name, \<lparr>size1 = size1 c, rows = map (\<lambda>i. rows c ! i) idx\<rparr>)) cols)"
  by (induction cols idx rule: select_rows.induct) (auto simp: index_rows_ok rbind_def)

lemma update_append:
  "k \<notin> fst ` set al \<Longrightarrow> AList.update k v al = al @ [(k, v)]"
  by (induction al) auto

lemma collect_fields_ok:
  "distinct names \<Longrightarrow> set names \<subseteq> fst ` set cf \<Longrightarrow> set names \<inter> fst ` set acc = {} \<Longrightarrow>
   \<exists>d. collect_fields cf names acc = Inr (acc @ d) \<and> map fst d = names \<and>
       list_all (\<lambda>(name, t). map_of cf name = Some t) d"
proof (induction cf names acc rule: collect_fields.induct)
  case (1 cpu_frame data_frame)
  then show ?case by simp
next
  case (2 cpu_frame name names data_frame)
  obtain t where t: "map_of cpu_frame name = Some t"
    using 2(3) by (cases "map_of cpu_frame name") (auto simp: map_of_eq_None_iff)
  have g: "getitem cpu_frame name = Inr t" by (simp add: getitem_def t)
  have u: "AList.update name t data_frame = data_frame @ [(name, t)]"
    using 2(4) by (intro update_append) auto
  have "\<exists>d. collect_fields cpu_frame names (AList.update name t data_frame)
              = Inr (AList.update name t data_frame @ d) \<and> map fst d = names \<and>
              list_all (\<lambda>(name, t). map_of cpu_frame name = Some t) d"
    using 2(1) [of t] 2(2,3,4) u by auto
  then obtain d where d: "collect_fields cpu_frame names (AList.update name t data_frame)
              = Inr (AList.update name t data_frame @ d)" "map fst d = names"
              "list_all (\<lambda>(name, t). map_of cpu_frame name = Some t) d" by blast
  show ?case
    using d g u t by (intro exI [of _ "(name, t) # d"]) (simp add: rbind_def)
qed

lemma map_of_select:
  "map_of (map (\<lambda>(name, c). (name, f c)) cols) k = map_option f (map_of cols k)"
  by (induction cols) auto

lemma get_feat_from_server_ok:
  assumes "store_serves st" and "list_all (\<lambda>i. i < node_num st) nids"
    and "distinct names" and "set names \<subseteq> fst ` set (graph st)"
  shows "\<exists>d. get_feat_from_server st nids names b = Inr d \<and> map fst d = names \<and>
           list_all (\<lambda>(name, t). \<exists>c. map_of (graph st) name = Some c \<and>
                                   t = gather (nid_map st) nids c) d"
proof -
  have r1: "list_all (\<lambda>i. i < length (nid_map st)) nids"
    using assms(1,2) by (auto simp: store_serves_def list_all_iff)
  have r2: "list_all (\<lambda>p. list_all (\<lambda>i. i < size0 (snd p)) (map (\<lambda>i. nid_map st ! i) nids))
              (graph st)"
    using assms(1,2) by (auto simp: store_serves_def list_all_iff)
  let ?cf = "map (\<lambda>(name, c). (name, \<lparr>size1 = size1 c,
               rows = map (\<lambda>i. rows c ! i) (map (\<lambda>i. nid_map st ! i) nids)\<rparr>)) (graph st)"
  have k: "fst ` set ?cf = fst ` set (graph st)" by force
  obtain d where d: "collect_fields ?cf names [] = Inr ([] @ d)" "map fst d = names"
      "list_all (\<lambda>(name, t). map_of ?cf name = Some t) d"
    using collect_fields_ok [of names ?cf "[]"] assms(3,4) k by auto
  have g: "get_feat_from_server st nids names b = Inr d"
    using d(1) by (simp add: get_feat_from_server_def index1_ok [OF r1] select_rows_ok [OF r2]
        rbind_def)
  have "list_all (\<lambda>(name, t). \<exists>c. map_of (graph st) name = Some c \<and>
                                   t = gather (nid_map st) nids c) d"
    using d(3) by (auto simp: list_all_iff map_of_select gather_def comp_def)
  then show ?thesis using g d(2) by blast
qed

lemma index_fill_Nil [simp]: "index_fill xs [] v = xs"
  by (simp add: index_fill_def)

lemma collect_fields_total:
  "set names \<subseteq> fst ` set cf \<Longrightarrow> list_all (\<lambda>p. size0 (snd p) = n) cf \<Longrightarrow>
   list_all (\<lambda>p. size0 (snd p) = n) acc \<Longrightarrow>
   \<exists>d. collect_fields cf names acc = Inr d \<and> list_all (\<lambda>p. size0 (snd p) = n) d"
proof (induction cf names acc rule: collect_fields.induct)
  case (1 cpu_frame data_frame)
  then show ?case by simp
next
  case (2 cpu_frame name names data_frame)
  obtain t where t: "map_of cpu_frame name = Some t"
    using 2(2) by (cases "map_of cpu_frame name") (auto simp: map_of_eq_None_iff)
  have g: "getitem cpu_frame name = Inr t" by (simp add: getitem_def t)
  have "(name, t) \<in> set cpu_frame" using t by (rule map_of_SomeD)
  then have st: "size0 t = n" using 2(3) by (auto simp: list_all_iff)
  have "set (AList.update name t data_frame) \<subseteq> insert (name, t) (set data_frame)"
    by (induction data_frame) auto
  then have acc: "list_all (\<lambda>p. size0 (snd p) = n) (AList.update name t data_frame)"
    using 2(4) st by (auto simp: list_all_iff)
  show ?case
    using 2(1) [of t] 2(2,3) acc g by (simp add: rbind_def)
qed

lemma get_feat_from_server_Nil:
  assumes "set names \<subseteq> fst ` set (graph st)"
  shows "\<exists>d. get_feat_from_server st [] names b = Inr d \<and> list_all (\<lambda>p. size0 (snd p) = 0) d"
proof -
  let ?cf = "map (\<lambda>(name, c). (name, \<lparr>size1 = size1 c, rows = map (\<lambda>i. rows c ! i) []\<rparr>)) (graph st)"
  have s: "select_rows (graph st) [] = Inr ?cf"
    by (intro select_rows_ok) (simp add: list_all_iff)
  have k: "fst ` set ?cf = fst ` set (graph st)" by force
  have z: "list_all (\<lambda>p. size0 (snd p) = 0) ?cf"
    by (auto simp: list_all_iff size0_def)
  obtain d where "collect_fields ?cf names [] = Inr d" "list_all (\<lambda>p. size0 (snd p) = 0) d"
    using collect_fields_total [of names ?cf 0 "[]"] assms k z by auto
  then show ?thesis
    using s by (simp add: get_feat_from_server_def index1_def rbind_def)
qed


subsection \<open>The gather reads the cache and writes only the frames\<close>

lemma general_loop_frame:
  "fst (fst (general_loop u js (st, nf))) = st \<and>
   layer_parent_nid (snd (fst (general_loop u js (st, nf)))) = layer_parent_nid nf"
  by (induction js arbitrary: nf) (auto split: sum.splits)

lemma cache_loop_frame:
  "fst (fst (cache_loop js (st, nf))) = st \<and>
   layer_parent_nid (snd (fst (cache_loop js (st, nf)))) = layer_parent_nid nf"
  by (induction js arbitrary: nf) (auto split: sum.splits)

text \<open>
  C9. Whatever the server and the node flow, and whether the call returns or raises,
  \<open>fetch_data\<close> (the fast path included) leaves the server as it was: the flags, the
  slot map, the device buffers, the dims, \<open>cached_num\<close>, \<open>full_cached\<close> and the
  capability. Of the node flow it changes the feature frames only, not the requested ids.
\<close>

theorem fetch_data_read_only:
  "fst (fst (fetch_data u (st, nf))) = st \<and>
   layer_parent_nid (snd (fst (fetch_data u (st, nf)))) = layer_parent_nid nf"
  by (simp add: fetch_data_def fetch_from_cache_def fetch_general_def
      general_loop_frame cache_loop_frame)

subsection \<open>The capacity estimate\<close>



text \<open>
  C3. The claim: the capacity is the floor of the memory left after the headroom divided
  by \<open>total_dim * 4\<close>, clamped at 0, and with a computed value of 0 or less nothing is
  placed on the device. The code does not keep it. On a device of 536870911 bytes with 8
  bytes allocated and a total width of 2 the memory left is \<open>-9\<close> bytes, so the claimed
  capacity is 0. The code stores \<open>-1\<close> (\<open>int\<close> drops the fraction of \<open>-9/8\<close> towards zero;
  the floor is \<open>-2\<close>), and since \<open>sort_nid[:-1]\<close> drops the last id only, it places four
  of the five nodes on the device and returns normally.
\<close>

theorem negative_capacity_places_nodes:
  "total_dim server5 = 2 \<and>
   (536870911 - 8 - 512 * 1024 * 1024 :: int) = - 9 \<and>
   max 0 ((536870911 - 8 - 512 * 1024 * 1024) div (int (total_dim server5) * 4)) = 0 \<and>
   capability (fst (auto_cache argsort_desc 8 536870911 server5 [3, 0, 5, 1, 2] [''features''])) = - 1 \<and>
   snd (auto_cache argsort_desc 8 536870911 server5 [3, 0, 5, 1, 2] [''features'']) = None \<and>
   cached_num (fst (auto_cache argsort_desc 8 536870911 server5 [3, 0, 5, 1, 2] [''features''])) = 4 \<and>
   gpu_flag (fst (auto_cache argsort_desc 8 536870911 server5 [3, 0, 5, 1, 2] [''features'']))
     = [True, False, True, True, True] \<and>
   cpu_flag (fst (auto_cache argsort_desc 8 536870911 server5 [3, 0, 5, 1, 2] [''features'']))
     = [False, True, False, False, False]"
  by code_simp

subsection \<open>The placement\<close>

lemma sorts_descending_perm:
  assumes "sorts_descending argsort ds"
  shows "distinct (argsort ds)" and "set (argsort ds) = {0..<length ds}"
    and "length (argsort ds) = length ds"
proof -
  have s: "sort (argsort ds) = [0..<length ds]"
    using assms by (simp add: sorts_descending_def)
  have "distinct (sort (argsort ds))" by (simp only: s distinct_upt)
  then show "distinct (argsort ds)" by simp
  have "set (sort (argsort ds)) = {0..<length ds}" by (simp only: s set_upt)
  then show "set (argsort ds) = {0..<length ds}" by simp
  have "length (sort (argsort ds)) = length ds" by (simp only: s length_upt diff_zero)
  then show "length (argsort ds) = length ds" by simp
qed

lemma sorts_descending_take:
  assumes "sorts_descending argsort ds"
    and "i \<in> set (take m (argsort ds))" and "j < length ds" and "j \<notin> set (take m (argsort ds))"
  shows "ds ! j \<le> ds ! i"
proof -
  let ?p = "argsort ds"
  have "j \<in> set ?p" using sorts_descending_perm(2) [OF assms(1)] assms(3) by simp
  then have "j \<in> set (take m ?p) \<union> set (drop m ?p)"
    by (simp only: set_append [symmetric] append_take_drop_id)
  then have j: "j \<in> set (drop m ?p)" using assms(4) by simp
  have "sorted_wrt (\<lambda>a b. b \<le> a) (map (\<lambda>i. ds ! i) (take m ?p @ drop m ?p))"
    using assms(1) by (simp add: sorts_descending_def)
  then show ?thesis
    using assms(2) j unfolding map_append sorted_wrt_append by auto
qed

lemma nth_index_put_at:
  assumes "distinct idx" and "list_all (\<lambda>i. i < length xs) idx" and "k < length idx"
  shows "index_put xs idx [0..<length idx] ! (idx ! k) = k"
proof -
  have "map (\<lambda>i. index_put xs idx [0..<length idx] ! i) idx ! k = [0..<length idx] ! k"
    using nth_index_put_distinct [OF assms(1) _ assms(2), of "[0..<length idx]"] by simp
  then show ?thesis using assms(3) by simp
qed





subsection \<open>The location flags partition the ids\<close>

lemma cache_fix_data_flags:
  "flags_partition st \<Longrightarrow> flags_partition (fst (cache_fix_data st nids data is_full))"
proof -
  assume inv: "flags_partition st"
  obtain st2 r where sf: "store_fields (length nids) data
      (st\<lparr>localid2cacheid := index_put (localid2cacheid st) nids [0..<length nids],
         cached_num := length nids\<rparr>) = (st2, r)"
    by (cases "store_fields (length nids) data
      (st\<lparr>localid2cacheid := index_put (localid2cacheid st) nids [0..<length nids],
         cached_num := length nids\<rparr>)")
  have k: "cpu_flag st2 = cpu_flag st" "gpu_flag st2 = gpu_flag st" "node_num st2 = node_num st"
    using store_fields_keeps(4,5,2) [of "length nids" data
      "st\<lparr>localid2cacheid := index_put (localid2cacheid st) nids [0..<length nids],
         cached_num := length nids\<rparr>"] sf by simp_all
  have inv2: "flags_partition st2"
    using inv k by (simp add: flags_partition_def)
  show ?thesis
    using sf inv2 k inv
    by (auto simp: cache_fix_data_def Let_def flags_partition_def list_all_iff nth_index_fill
        split: option.splits)
qed

lemma init_flags: "flags_partition (init g n m gid)"
  by (simp add: flags_partition_def init_def list_all_iff)

lemma init_field_flags: "flags_partition st \<Longrightarrow> flags_partition (fst (init_field st names))"
  by (simp add: flags_partition_def init_field_keeps)

lemma auto_cache_flags:
  "flags_partition st \<Longrightarrow>
   flags_partition (fst (auto_cache argsort peak tot st degs names))"
proof -
  assume inv: "flags_partition st"
  have inv1: "flags_partition (st\<lparr>capability := c\<rparr>)" for c
    using inv by (simp add: flags_partition_def)
  show ?thesis
    using inv inv1
    by (auto simp: auto_cache_def Let_def cache_fix_data_flags split: sum.splits)
qed

text \<open>
  C5. After construction every local id below \<open>node_num\<close> has exactly one of
  \<open>gpu_flag\<close> and \<open>cpu_flag\<close> set, and every method keeps it so, whether it returns
  or raises: \<open>init_field\<close>, \<open>cache_fix_data\<close>, \<open>auto_cache\<close> and \<open>fetch_data\<close>.
\<close>

theorem flags_partition_invariant:
  "flags_partition (init g n m gid) \<and>
   (flags_partition st \<longrightarrow>
      flags_partition (fst (init_field st names)) \<and>
      flags_partition (fst (cache_fix_data st nids data is_full)) \<and>
      flags_partition (fst (auto_cache argsort peak tot st degs names)) \<and>
      flags_partition (fst (fst (fetch_data u (st, nf)))))"
  using general_loop_frame [of u "[0..<num_layers nf]" st nf]
    cache_loop_frame [of "[0..<num_layers nf]" st nf]
  by (simp add: init_flags init_field_flags cache_fix_data_flags auto_cache_flags
      fetch_data_def fetch_from_cache_def fetch_general_def)

theorem flags_partition_invariant_witness:
  "flags_partition server5 \<and>
   cpu_flag (fst (cache_fix_data server5 [2, 0]
       [(''features'', \<lparr>size1 = 2, rows = [[30, 31], [50, 51]]\<rparr>)] False))
     = [False, True, False, True, True] \<and>
   gpu_flag (fst (cache_fix_data server5 [2, 0]
       [(''features'', \<lparr>size1 = 2, rows = [[30, 31], [50, 51]]\<rparr>)] False))
     = [True, False, True, False, False] \<and>
   flags_partition (fst (cache_fix_data server5 [2, 0]
       [(''features'', \<lparr>size1 = 2, rows = [[30, 31], [50, 51]]\<rparr>)] False))"
proof -
  have h: "flags_partition server5" by code_simp
  have c: "cpu_flag (fst (cache_fix_data server5 [2, 0]
       [(''features'', \<lparr>size1 = 2, rows = [[30, 31], [50, 51]]\<rparr>)] False))
     = [False, True, False, True, True]" by code_simp
  have g: "gpu_flag (fst (cache_fix_data server5 [2, 0]
       [(''features'', \<lparr>size1 = 2, rows = [[30, 31], [50, 51]]\<rparr>)] False))
     = [True, False, True, False, False]" by code_simp
  show ?thesis
    using h c g flags_partition_invariant [of store5 5 "[4,3,2,1,0]" 0 server5]
    by blast
qed

subsection \<open>Population: slots and row counts\<close>

text \<open>
  C6. For ids without repetition, after \<open>cache_fix_data\<close> has returned normally the
  slots of the ids are \<open>0, ..., |ids| - 1\<close> in the order of the ids, so the slot map is a
  bijection from the ids onto the cache rows, and \<open>cached_num\<close> is \<open>|ids|\<close>.
\<close>

theorem slot_bijection:
  assumes "distinct nids"
    and "cache_fix_data st nids data is_full = (st', None)"
  shows "map (\<lambda>i. localid2cacheid st' ! i) nids = [0..<length nids] \<and>
         bij_betw (\<lambda>i. localid2cacheid st' ! i) (set nids) {0..<length nids} \<and>
         cached_num st' = length nids"
proof -
  have ok: "snd (cache_fix_data st nids data is_full) = None"
    and st': "st' = fst (cache_fix_data st nids data is_full)"
    using assms(2) by simp_all
  have rng: "list_all (\<lambda>i. i < length (localid2cacheid st)) nids"
    using ok by (simp add: cache_fix_data_error split: if_splits)
  have m: "map (\<lambda>i. localid2cacheid st' ! i) nids = [0..<length nids]"
    using nth_index_put_distinct [OF assms(1) _ rng, of "[0..<length nids]"]
      cache_fix_data_slots(1) [OF ok] st' by simp
  have "distinct (map (\<lambda>i. localid2cacheid st' ! i) nids)"
    by (simp add: m)
  then have inj: "inj_on (\<lambda>i. localid2cacheid st' ! i) (set nids)"
    by (simp add: distinct_map)
  have "(\<lambda>i. localid2cacheid st' ! i) ` set nids = set (map (\<lambda>i. localid2cacheid st' ! i) nids)"
    by simp
  also have "\<dots> = {0..<length nids}"
    by (simp only: m set_upt)
  finally have img: "(\<lambda>i. localid2cacheid st' ! i) ` set nids = {0..<length nids}" .
  show ?thesis
    using m inj img cache_fix_data_slots(2) [OF ok] st' by (simp add: bij_betw_def)
qed

theorem slot_bijection_witness:
  "distinct [2, 0 :: nat] \<and>
   map (\<lambda>i. localid2cacheid (fst (cache_fix_data server5 [2, 0]
       [(''features'', \<lparr>size1 = 2, rows = [[30, 31], [50, 51]]\<rparr>)] False)) ! i) [2, 0] = [0, 1] \<and>
   cached_num (fst (cache_fix_data server5 [2, 0]
       [(''features'', \<lparr>size1 = 2, rows = [[30, 31], [50, 51]]\<rparr>)] False)) = 2"
proof -
  let ?r = "cache_fix_data server5 [2, 0]
       [(''features'', \<lparr>size1 = 2, rows = [[30, 31], [50, 51]]\<rparr>)] False"
  have d: "distinct [2, 0 :: nat]" by simp
  have ok: "snd ?r = None" by code_simp
  have e: "?r = (fst ?r, None)" using ok by (simp add: prod_eq_iff)
  show ?thesis
    using d slot_bijection [OF d e] by simp
qed

text \<open>
  C7. On a server whose arrays have \<open>node_num\<close> entries and for local ids below
  \<open>node_num\<close>, \<open>cache_fix_data\<close> raises the assertion error (the spec's
  DimensionMismatch) exactly when some field of the data has a row count other than
  \<open>|ids|\<close>, and returns normally when every row count is \<open>|ids|\<close>.
\<close>

theorem row_count_assertion:
  assumes "arrays_sized st" and "list_all (\<lambda>i. i < node_num st) nids"
  shows "(snd (cache_fix_data st nids data is_full) = Some AssertionError
            \<longleftrightarrow> (\<exists>(name, t) \<in> set data. size0 t \<noteq> length nids)) \<and>
         ((\<forall>(name, t) \<in> set data. size0 t = length nids)
            \<longrightarrow> snd (cache_fix_data st nids data is_full) = None)"
  using assms
  by (auto simp: cache_fix_data_error arrays_sized_def list_all_iff)

theorem row_count_assertion_witness:
  "arrays_sized server5 \<and> list_all (\<lambda>i. i < node_num server5) [2, 0] \<and>
   snd (cache_fix_data server5 [2, 0]
       [(''features'', \<lparr>size1 = 2, rows = [[30, 31]]\<rparr>)] False) = Some AssertionError \<and>
   snd (cache_fix_data server5 [2, 0]
       [(''features'', \<lparr>size1 = 2, rows = [[30, 31], [50, 51]]\<rparr>)] False) = None"
proof -
  have a: "arrays_sized server5" by code_simp
  have b: "list_all (\<lambda>i. i < node_num server5) [2, 0]" by code_simp
  show ?thesis
    using a b
      row_count_assertion [OF a b, of "[(''features'', \<lparr>size1 = 2, rows = [[30, 31 :: int]]\<rparr>)]" False]
      row_count_assertion [OF a b,
        of "[(''features'', \<lparr>size1 = 2, rows = [[30, 31 :: int], [50, 51]]\<rparr>)]" False]
    by (simp add: size0_def)
qed

subsection \<open>Masks and the loops over the fields\<close>

lemma masked_select_map: "masked_select xs (map p xs) = filter p xs"
proof -
  have "map fst (filter snd (zip xs (map p xs))) = filter p xs"
    by (induction xs) auto
  then show ?thesis by (simp add: masked_select_def)
qed

lemma masked_assign_map:
  "masked_assign (map g xs) (map p xs) (map f (filter p xs))
     = map (\<lambda>x. if p x then f x else g x) xs"
  by (induction xs) auto

lemma length_masked_assign [simp]: "length (masked_assign ds ms ss) = length ds"
  by (induction ds ms ss rule: masked_assign.induct) auto

lemma map_of_middle:
  "k \<notin> fst ` set pre \<Longrightarrow> map_of (pre @ (k, v) # post) k = Some v"
  by (induction pre) auto

lemma update_middle:
  "k \<notin> fst ` set pre \<Longrightarrow> AList.update k w (pre @ (k, v) # post) = pre @ (k, w) # post"
  by (induction pre) auto

lemma fill_from_gpu_ok:
  assumes "distinct (map fst (pre @ post))"
    and "index1 (localid2cacheid st) nids = Inr cid"
    and "\<forall>(k, dst) \<in> set post. \<exists>c src. getitem (gpu_fix_cache st) k = Inr c \<and>
           index_rows c cid = Inr src \<and> masked_put dst msk src = Inr (G k dst)"
  shows "fill_from_gpu st nids msk (map fst post) (pre @ post)
           = Inr (pre @ map (\<lambda>(k, dst). (k, G k dst)) post)"
  using assms(1,3)
proof (induction post arbitrary: pre)
  case Nil
  then show ?case by simp
next
  case (Cons e post)
  obtain k dst where e: "e = (k, dst)" by (cases e)
  have nk: "k \<notin> fst ` set pre" using Cons.prems(1) e by auto
  obtain c src where s: "getitem (gpu_fix_cache st) k = Inr c" "index_rows c cid = Inr src"
      "masked_put dst msk src = Inr (G k dst)"
    using Cons.prems(2) e by auto
  have g: "getitem (pre @ (k, dst) # post) k = Inr dst"
    using map_of_middle [OF nk, of dst post] by (simp only: getitem_def option.case)
  have u: "AList.update k (G k dst) (pre @ (k, dst) # post) = (pre @ [(k, G k dst)]) @ post"
    by (simp add: update_middle [OF nk])
  have d: "distinct (map fst ((pre @ [(k, G k dst)]) @ post))"
    using Cons.prems(1) e by auto
  have r: "fill_from_gpu st nids msk (map fst post) ((pre @ [(k, G k dst)]) @ post)
           = Inr ((pre @ [(k, G k dst)]) @ map (\<lambda>(k, dst). (k, G k dst)) post)"
    using Cons.IH [OF d] Cons.prems(2) by simp
  show ?case
    using r by (simp add: e assms(2) s g u rbind_def del: append_assoc)
qed

lemma fill_from_cpu_ok:
  assumes "distinct (map fst (pre @ post))"
    and "\<forall>(k, dst) \<in> set post. \<exists>src. getitem cdf k = Inr src \<and>
           masked_put dst msk src = Inr (G k dst)"
  shows "fill_from_cpu cdf msk (map fst post) (pre @ post)
           = Inr (pre @ map (\<lambda>(k, dst). (k, G k dst)) post)"
  using assms
proof (induction post arbitrary: pre)
  case Nil
  then show ?case by simp
next
  case (Cons e post)
  obtain k dst where e: "e = (k, dst)" by (cases e)
  have nk: "k \<notin> fst ` set pre" using Cons.prems(1) e by auto
  obtain src where s: "getitem cdf k = Inr src" "masked_put dst msk src = Inr (G k dst)"
    using Cons.prems(2) e by auto
  have g: "getitem (pre @ (k, dst) # post) k = Inr dst"
    using map_of_middle [OF nk, of dst post] by (simp only: getitem_def option.case)
  have u: "AList.update k (G k dst) (pre @ (k, dst) # post) = (pre @ [(k, G k dst)]) @ post"
    by (simp add: update_middle [OF nk])
  have d: "distinct (map fst ((pre @ [(k, G k dst)]) @ post))"
    using Cons.prems(1) e by auto
  have r: "fill_from_cpu cdf msk (map fst post) ((pre @ [(k, G k dst)]) @ post)
           = Inr ((pre @ [(k, G k dst)]) @ map (\<lambda>(k, dst). (k, G k dst)) post)"
    using Cons.IH [OF d] Cons.prems(2) by simp
  show ?case
    using r by (simp add: e s g u rbind_def del: append_assoc)
qed

subsection \<open>The frame of one layer\<close>

lemma rbind_Inr: "rbind (Inr x) f = f x"
  by (simp add: rbind_def)

lemma keyed_map:
  "\<forall>(k, t) \<in> set d. t = f k \<Longrightarrow> d = map (\<lambda>k. (k, f k)) (map fst d)"
  by (induction d) auto

lemma get_feat_from_server_eq:
  assumes "store_serves st" and "list_all (\<lambda>i. i < node_num st) nids"
    and "distinct names" and "set names \<subseteq> fst ` set (graph st)"
  shows "get_feat_from_server st nids names b
           = Inr (map (\<lambda>k. (k, gather (nid_map st) nids (the (map_of (graph st) k)))) names)"
proof -
  obtain d where d: "get_feat_from_server st nids names b = Inr d" "map fst d = names"
      "list_all (\<lambda>(name, t). \<exists>c. map_of (graph st) name = Some c \<and>
                                   t = gather (nid_map st) nids c) d"
    using get_feat_from_server_ok [OF assms] by blast
  have "\<forall>(k, t) \<in> set d. t = gather (nid_map st) nids (the (map_of (graph st) k))"
    using d(3) by (auto simp: list_all_iff)
  then have "d = map (\<lambda>k. (k, gather (nid_map st) nids (the (map_of (graph st) k)))) (map fst d)"
    by (rule keyed_map)
  then show ?thesis using d(1,2) by simp
qed

lemma map_of_keyed:
  "k \<in> set names \<Longrightarrow> map_of (map (\<lambda>k. (k, f k)) names) k = Some (f k)"
  by (induction names) auto

lemma fetch_layer_rows:
  assumes cc: "cache_consistent st" and valid: "list_all (\<lambda>i. i < node_num st) tnid"
    and host: "list_ex (\<lambda>i. cpu_flag st ! i) tnid \<longrightarrow> store_serves st \<and> store_has_cache_fields st"
  shows "fetch_layer u st tnid =
     Inr (map (\<lambda>(name, c). (name, \<lparr>size1 = size1 c,
            rows = map (\<lambda>i. if gpu_flag st ! i then rows c ! (localid2cacheid st ! i)
                            else rows (the (map_of (graph st) name)) ! (nid_map st ! i)) tnid\<rparr>))
          (gpu_fix_cache st))"
proof -
  let ?n = "length tnid"
  let ?gpu = "\<lambda>i. gpu_flag st ! i"
  let ?cpu = "\<lambda>i. cpu_flag st ! i"
  let ?cache = "gpu_fix_cache st"
  let ?crow = "\<lambda>c i. rows c ! (localid2cacheid st ! i)"
  let ?srow = "\<lambda>k i. rows (the (map_of (graph st) k)) ! (nid_map st ! i)"
  let ?jr = "\<lambda>c. replicate (size1 c) u"
  let ?F0 = "map (\<lambda>(name, d). (name, alloc u ?n d)) (dims st)"
  let ?F1 = "map (\<lambda>(name, c). (name, \<lparr>size1 = size1 c,
               rows = map (\<lambda>i. if ?gpu i then ?crow c i else ?jr c) tnid\<rparr>)) ?cache"
  let ?F2 = "map (\<lambda>(name, c). (name, \<lparr>size1 = size1 c,
               rows = map (\<lambda>i. if ?gpu i then ?crow c i else ?srow name i) tnid\<rparr>)) ?cache"
  have len: "length (gpu_flag st) = node_num st" "length (cpu_flag st) = node_num st"
    "length (localid2cacheid st) = node_num st"
    using cc by (simp_all add: cache_consistent_def arrays_sized_def)
  have dm: "dims st = map (\<lambda>(name, c). (name, size1 c)) ?cache"
    and dk: "distinct (map fst ?cache)"
    using cc by (simp_all add: cache_consistent_def)
  have part: "?cpu i = (\<not> ?gpu i)" if "i \<in> set tnid" for i
    using that cc valid by (auto simp: cache_consistent_def flags_partition_def list_all_iff)
  have slot: "localid2cacheid st ! i < size0 c"
    if "i \<in> set tnid" "?gpu i" "(name, c) \<in> set ?cache" for i name c
    using that cc valid by (fastforce simp: cache_consistent_def list_all_iff)
  have gm: "index1 (gpu_flag st) tnid = Inr (map ?gpu tnid)"
    using valid len by (simp add: index1_def)
  have cm: "index1 (cpu_flag st) tnid = Inr (map ?cpu tnid)"
    using valid len by (simp add: index1_def)
  have keys0: "map fst (dims st) = map fst ?cache"
    by (simp add: dm comp_def case_prod_beta)
  have F0: "?F0 = map (\<lambda>(name, c). (name, \<lparr>size1 = size1 c,
               rows = map (\<lambda>i. ?jr c) tnid\<rparr>)) ?cache"
    by (simp add: dm alloc_def comp_def case_prod_beta map_replicate_const)
  have keysF0: "map fst ?F0 = map fst ?cache"
    by (simp add: F0 comp_def case_prod_beta)
  have keysF1: "map fst ?F1 = map fst ?cache"
    by (simp add: comp_def case_prod_beta)
  \<comment> \<open>the device branch\<close>
  have p1: "(if length (filter ?gpu tnid) \<noteq> 0
             then fill_from_gpu st (filter ?gpu tnid) (map ?gpu tnid) (map fst (dims st)) ?F0
             else Inr ?F0) = Inr ?F1"
  proof (cases "filter ?gpu tnid = []")
    case True
    then have "\<forall>i \<in> set tnid. \<not> ?gpu i" by (simp add: filter_empty_conv)
    then have "?F0 = ?F1" unfolding F0 by (intro map_cong) auto
    then show ?thesis using True by simp
  next
    case False
    let ?cid = "map (\<lambda>i. localid2cacheid st ! i) (filter ?gpu tnid)"
    let ?G = "\<lambda>k dst. dst\<lparr>rows := masked_assign (rows dst) (map ?gpu tnid)
                 (map (\<lambda>i. rows (the (map_of ?cache k)) ! i) ?cid)\<rparr>"
    have ci: "index1 (localid2cacheid st) (filter ?gpu tnid) = Inr ?cid"
      using valid len by (simp add: index1_def list_all_iff)
    have st: "\<forall>(k, dst) \<in> set ?F0. \<exists>c src. getitem ?cache k = Inr c \<and>
           index_rows c ?cid = Inr src \<and> masked_put dst (map ?gpu tnid) src = Inr (?G k dst)"
    proof (clarify)
      fix k dst assume "(k, dst) \<in> set ?F0"
      then obtain c where c: "(k, c) \<in> set ?cache" "dst = alloc u ?n (size1 c)"
        by (auto simp: dm)
      have mo: "map_of ?cache k = Some c" using c(1) dk by simp
      have "list_all (\<lambda>i. i < size0 c) ?cid"
        using slot c(1) by (auto simp: list_all_iff)
      then have ir: "index_rows c ?cid = Inr \<lparr>size1 = size1 c, rows = map (\<lambda>i. rows c ! i) ?cid\<rparr>"
        by (rule index_rows_ok)
      show "\<exists>c src. getitem ?cache k = Inr c \<and>
           index_rows c ?cid = Inr src \<and> masked_put dst (map ?gpu tnid) src = Inr (?G k dst)"
        using mo ir c(2) by (simp add: getitem_def masked_put_def alloc_def)
    qed
    have "fill_from_gpu st (filter ?gpu tnid) (map ?gpu tnid) (map fst ?F0) ([] @ ?F0)
            = Inr ([] @ map (\<lambda>(k, dst). (k, ?G k dst)) ?F0)"
    proof (rule fill_from_gpu_ok [OF _ ci st])
      show "distinct (map fst ([] @ ?F0))" using dk by (simp only: append_Nil keysF0)
    qed
    moreover have "map (\<lambda>(k, dst). (k, ?G k dst)) ?F0 = ?F1"
    proof -
      have "(case (case e of (name, c) \<Rightarrow> (name, \<lparr>size1 = size1 c, rows = map (\<lambda>i. ?jr c) tnid\<rparr>))
               of (k, dst) \<Rightarrow> (k, ?G k dst))
            = (case e of (name, c) \<Rightarrow> (name, \<lparr>size1 = size1 c,
                  rows = map (\<lambda>i. if ?gpu i then ?crow c i else ?jr c) tnid\<rparr>))"
        if "e \<in> set ?cache" for e
      proof -
        obtain k c where e: "e = (k, c)" by (cases e)
        have mo: "map_of ?cache k = Some c" using that e dk by simp
        have "masked_assign (map (\<lambda>i. ?jr c) tnid) (map ?gpu tnid)
                (map (\<lambda>i. ?crow c i) (filter ?gpu tnid))
              = map (\<lambda>i. if ?gpu i then ?crow c i else ?jr c) tnid"
          by (rule masked_assign_map)
        then show ?thesis by (simp add: e mo comp_def)
      qed
      then show ?thesis unfolding F0 map_map comp_def by (intro map_cong) auto
    qed
    ultimately show ?thesis using False keys0 keysF0 by simp
  qed
  \<comment> \<open>the host branch\<close>
  have p2: "(if length (filter ?cpu tnid) \<noteq> 0 then
       rbind (get_feat_from_server st (filter ?cpu tnid) (map fst (dims st)) True) (\<lambda>cdf.
       fill_from_cpu cdf (map ?cpu tnid) (map fst (dims st)) ?F1)
     else Inr ?F1) = Inr ?F2"
  proof (cases "filter ?cpu tnid = []")
    case True
    then have "\<forall>i \<in> set tnid. ?gpu i" using part by (simp add: filter_empty_conv)
    then have "?F1 = ?F2" by (intro map_cong) auto
    then show ?thesis using True by simp
  next
    case False
    then have "list_ex ?cpu tnid" by (auto simp: list_ex_iff filter_empty_conv)
    then have ss: "store_serves st" and hf: "store_has_cache_fields st" using host by simp_all
    let ?ids = "filter ?cpu tnid"
    let ?names = "map fst ?cache"
    let ?cdf = "map (\<lambda>k. (k, gather (nid_map st) ?ids (the (map_of (graph st) k)))) ?names"
    let ?G = "\<lambda>k dst. dst\<lparr>rows := masked_assign (rows dst) (map ?cpu tnid)
                 (map (\<lambda>i. ?srow k i) ?ids)\<rparr>"
    have sub: "set ?names \<subseteq> fst ` set (graph st)"
    proof
      fix k assume "k \<in> set ?names"
      then obtain c where "(k, c) \<in> set ?cache" by auto
      then have "map_of (graph st) k \<noteq> None"
        using hf by (auto simp: store_has_cache_fields_def list_all_iff split: option.splits)
      then show "k \<in> fst ` set (graph st)" by (simp add: map_of_eq_None_iff)
    qed
    have v: "list_all (\<lambda>i. i < node_num st) ?ids"
      using valid by (simp add: list_all_iff)
    have gf: "get_feat_from_server st ?ids (map fst (dims st)) True = Inr ?cdf"
      unfolding keys0 by (rule get_feat_from_server_eq [OF ss v dk sub])
    have st: "\<forall>(k, dst) \<in> set ?F1. \<exists>src. getitem ?cdf k = Inr src \<and>
           masked_put dst (map ?cpu tnid) src = Inr (?G k dst)"
    proof (clarify)
      fix k dst assume "(k, dst) \<in> set ?F1"
      then obtain c where c: "(k, c) \<in> set ?cache" "size1 dst = size1 c" by auto
      have kin: "k \<in> set ?names" using c(1) by force
      have w: "size1 (the (map_of (graph st) k)) = size1 c"
        using hf c(1) by (auto simp: store_has_cache_fields_def list_all_iff split: option.splits)
      show "\<exists>src. getitem ?cdf k = Inr src \<and>
           masked_put dst (map ?cpu tnid) src = Inr (?G k dst)"
        using map_of_keyed [OF kin, of "\<lambda>k. gather (nid_map st) ?ids (the (map_of (graph st) k))"]
          w c(2) by (simp add: getitem_def masked_put_def gather_def)
    qed
    have fc0: "fill_from_cpu ?cdf (map ?cpu tnid) (map fst ?F1) ([] @ ?F1)
            = Inr ([] @ map (\<lambda>(k, dst). (k, ?G k dst)) ?F1)"
    proof (rule fill_from_cpu_ok [OF _ st])
      show "distinct (map fst ([] @ ?F1))" using dk by (simp only: append_Nil keysF1)
    qed
    have eq2: "map (\<lambda>(k, dst). (k, ?G k dst)) ?F1 = ?F2"
    proof -
      have "(case (case e of (name, c) \<Rightarrow> (name, \<lparr>size1 = size1 c,
                 rows = map (\<lambda>i. if ?gpu i then ?crow c i else ?jr c) tnid\<rparr>))
               of (k, dst) \<Rightarrow> (k, ?G k dst))
            = (case e of (name, c) \<Rightarrow> (name, \<lparr>size1 = size1 c,
                  rows = map (\<lambda>i. if ?gpu i then ?crow c i else ?srow name i) tnid\<rparr>))"
        if "e \<in> set ?cache" for e
      proof -
        obtain k c where e: "e = (k, c)" by (cases e)
        have "masked_assign (map (\<lambda>i. if ?gpu i then ?crow c i else ?jr c) tnid) (map ?cpu tnid)
                (map (\<lambda>i. ?srow k i) (filter ?cpu tnid))
              = map (\<lambda>i. if ?cpu i then ?srow k i else (if ?gpu i then ?crow c i else ?jr c)) tnid"
          by (rule masked_assign_map)
        also have "\<dots> = map (\<lambda>i. if ?gpu i then ?crow c i else ?srow k i) tnid"
          using part by (intro map_cong) auto
        finally show ?thesis by (simp add: e)
      qed
      then show ?thesis unfolding map_map comp_def by (intro map_cong) auto
    qed
    have kk: "map fst (dims st) = map fst ?F1" by (simp only: keys0 keysF1)
    have fc: "fill_from_cpu ?cdf (map ?cpu tnid) (map fst (dims st)) ?F1 = Inr ?F2"
      using fc0 by (simp only: kk append_Nil eq2)
    have ne: "length (filter ?cpu tnid) \<noteq> 0" using False by simp
    show ?thesis by (simp only: ne if_True not_False_eq_True gf rbind_def sum.case fc)
  qed
  show ?thesis
    unfolding fetch_layer_def
    by (simp only: gm cm rbind_Inr Let_def masked_select_map p1 p2)
qed

subsection \<open>Population and the recorded dims\<close>

text \<open>
  C8, as the spec states it, fails: after \<open>init_field\<close> has recorded width 2 for the
  field, a population whose buffer has width 3 returns normally and leaves width 3 in
  \<open>dims\<close>.
\<close>

theorem dims_overwritten_counterexample:
  "dims server5 = [(''features'', 2)] \<and>
   snd (cache_fix_data server5 [2, 0]
       [(''features'', \<lparr>size1 = 3, rows = [[30, 31, 32], [50, 51, 52]]\<rparr>)] False) = None \<and>
   dims (fst (cache_fix_data server5 [2, 0]
       [(''features'', \<lparr>size1 = 3, rows = [[30, 31, 32], [50, 51, 52]]\<rparr>)] False))
     = [(''features'', 3)]"
  by code_simp

text \<open>
  C8, amended. \<open>cache_fix_data\<close> does not compare widths: when it returns normally,
  \<open>dims\<close> holds, for every field of the data, the width of the data's buffer, whatever
  was recorded before; and the same call with the widths of the buffers changed at will
  returns normally as well.
\<close>

theorem dims_follow_population:
  assumes "snd (cache_fix_data st nids data is_full) = None"
    and "distinct (map fst data)" and "(name, t) \<in> set data"
  shows "map_of (dims (fst (cache_fix_data st nids data is_full))) name = Some (size1 t) \<and>
         snd (cache_fix_data st nids (map (\<lambda>(k, c). (k, c\<lparr>size1 := w k\<rparr>)) data) is_full) = None"
proof -
  have ok: "list_all (\<lambda>p. size0 (snd p) = length nids) data"
    using assms(1) by (simp add: cache_fix_data_error split: if_splits)
  have m: "map_of data name = Some t"
    using assms(2,3) by simp
  have a: "map_of (dims (fst (cache_fix_data st nids data is_full))) name = Some (size1 t)"
    using store_fields_dims [OF ok assms(2)] m cache_fix_data_dims(1) [OF assms(1)] by simp
  have ok': "list_all (\<lambda>p. size0 (snd p) = length nids)
               (map (\<lambda>(k, c). (k, c\<lparr>size1 := w k\<rparr>)) data)"
    using ok by (auto simp: list_all_iff size0_def)
  have b: "snd (cache_fix_data st nids (map (\<lambda>(k, c). (k, c\<lparr>size1 := w k\<rparr>)) data) is_full) = None"
    using assms(1) ok ok' by (simp add: cache_fix_data_error split: if_splits)
  show ?thesis using a b by simp
qed

theorem dims_follow_population_witness:
  "snd (cache_fix_data server5 [2, 0]
       [(''features'', \<lparr>size1 = 3, rows = [[30, 31, 32], [50, 51, 52]]\<rparr>)] False) = None \<and>
   distinct (map fst [(''features'', \<lparr>size1 = 3, rows = [[30, 31, 32], [50, 51, 52 :: int]]\<rparr>)]) \<and>
   map_of (dims (fst (cache_fix_data server5 [2, 0]
       [(''features'', \<lparr>size1 = 3, rows = [[30, 31, 32], [50, 51, 52]]\<rparr>)] False))) ''features''
     = Some 3"
proof -
  let ?data = "[(''features'', \<lparr>size1 = 3, rows = [[30, 31, 32], [50, 51, 52 :: int]]\<rparr>)]"
  have a: "snd (cache_fix_data server5 [2, 0] ?data False) = None" by code_simp
  have b: "distinct (map fst ?data)" by simp
  have c: "(''features'', \<lparr>size1 = 3, rows = [[30, 31, 32], [50, 51, 52 :: int]]\<rparr>) \<in> set ?data"
    by simp
  show ?thesis
    using a b dims_follow_population [OF a b c] by simp
qed

subsection \<open>A hop served from the device does not read the store\<close>

lemma fill_from_gpu_graph:
  "fill_from_gpu (st\<lparr>graph := g\<rparr>) nids msk names frame = fill_from_gpu st nids msk names frame"
  by (induction st nids msk names frame rule: fill_from_gpu.induct) (simp add: rbind_def)+

lemma fetch_layer_device_only:
  assumes "flags_partition st"
    and "list_all (\<lambda>j. j < node_num st \<and> gpu_flag st ! j) tnid"
  shows "fetch_layer u (st\<lparr>graph := g\<rparr>) tnid = fetch_layer u st tnid"
proof -
  have len: "length (cpu_flag st) = node_num st"
    using assms(1) by (simp add: flags_partition_def)
  have nc: "\<not> cpu_flag st ! j" if "j \<in> set tnid" for j
    using that assms by (auto simp: flags_partition_def list_all_iff)
  have cm: "index1 (cpu_flag st) tnid = Inr (map (\<lambda>j. cpu_flag st ! j) tnid)"
    using assms(2) len by (simp add: index1_def list_all_iff)
  have e: "filter (\<lambda>j. cpu_flag st ! j) tnid = []"
    using nc by (simp add: filter_empty_conv)
  show ?thesis
    by (simp add: fetch_layer_def cm masked_select_map e fill_from_gpu_graph rbind_def Let_def
        split: sum.splits)
qed

lemma general_loop_device_only:
  assumes "flags_partition st"
    and "\<forall>i \<in> set js. list_all (\<lambda>j. j < node_num st \<and> gpu_flag st ! j) (layer_parent_nid nf ! i)"
  shows "snd (fst (general_loop u js (st\<lparr>graph := g\<rparr>, nf))) = snd (fst (general_loop u js (st, nf))) \<and>
         snd (general_loop u js (st\<lparr>graph := g\<rparr>, nf)) = snd (general_loop u js (st, nf))"
  using assms(2)
proof (induction js arbitrary: nf)
  case Nil
  then show ?case by simp
next
  case (Cons i js)
  have e: "fetch_layer u (st\<lparr>graph := g\<rparr>) (layer_parent_nid nf ! i)
             = fetch_layer u st (layer_parent_nid nf ! i)"
    using Cons.prems by (intro fetch_layer_device_only [OF assms(1)]) simp
  show ?case
  proof (cases "fetch_layer u st (layer_parent_nid nf ! i)")
    case (Inl err)
    then show ?thesis using e by simp
  next
    case (Inr frame)
    show ?thesis
    proof (cases "i < length (node_frames nf)")
      case True
      have "\<forall>k \<in> set js. list_all (\<lambda>j. j < node_num st \<and> gpu_flag st ! j)
              (layer_parent_nid (nf\<lparr>node_frames := (node_frames nf)[i := frame]\<rparr>) ! k)"
        using Cons.prems by simp
      then show ?thesis
        using Cons.IH [of "nf\<lparr>node_frames := (node_frames nf)[i := frame]\<rparr>"] e Inr True by simp
    next
      case False
      then show ?thesis using e Inr by simp
    qed
  qed
qed

text \<open>
  C10. With the flags partitioned and \<open>full_cached\<close> false: the frame of a hop whose ids
  are all on the device is the same whatever the host store holds; and when this is so of
  every hop of a node flow, \<open>fetch_data\<close> leaves the same frames and raises or returns
  alike, whatever the host store holds.
\<close>

theorem device_resident_hop_ignores_store:
  assumes "flags_partition st" and "\<not> full_cached st"
  shows "(list_all (\<lambda>j. j < node_num st \<and> gpu_flag st ! j) tnid \<longrightarrow>
            fetch_layer u (st\<lparr>graph := g\<rparr>) tnid = fetch_layer u st tnid) \<and>
         (list_all (list_all (\<lambda>j. j < node_num st \<and> gpu_flag st ! j)) (layer_parent_nid nf) \<longrightarrow>
            snd (fst (fetch_data u (st\<lparr>graph := g\<rparr>, nf))) = snd (fst (fetch_data u (st, nf))) \<and>
            snd (fetch_data u (st\<lparr>graph := g\<rparr>, nf)) = snd (fetch_data u (st, nf)))"
proof (intro conjI impI)
  assume "list_all (\<lambda>j. j < node_num st \<and> gpu_flag st ! j) tnid"
  then show "fetch_layer u (st\<lparr>graph := g\<rparr>) tnid = fetch_layer u st tnid"
    by (rule fetch_layer_device_only [OF assms(1)])
next
  assume a: "list_all (list_all (\<lambda>j. j < node_num st \<and> gpu_flag st ! j)) (layer_parent_nid nf)"
  have "\<forall>i \<in> set [0..<num_layers nf].
          list_all (\<lambda>j. j < node_num st \<and> gpu_flag st ! j) (layer_parent_nid nf ! i)"
    using a by (auto simp: list_all_iff num_layers_def)
  then have l: "snd (fst (general_loop u [0..<num_layers nf] (st\<lparr>graph := g\<rparr>, nf)))
                  = snd (fst (general_loop u [0..<num_layers nf] (st, nf))) \<and>
                snd (general_loop u [0..<num_layers nf] (st\<lparr>graph := g\<rparr>, nf))
                  = snd (general_loop u [0..<num_layers nf] (st, nf))"
    by (rule general_loop_device_only [OF assms(1)])
  show "snd (fst (fetch_data u (st\<lparr>graph := g\<rparr>, nf))) = snd (fst (fetch_data u (st, nf)))"
    using l assms(2) by (simp add: fetch_data_def fetch_general_def)
  show "snd (fetch_data u (st\<lparr>graph := g\<rparr>, nf)) = snd (fetch_data u (st, nf))"
    using l assms(2) by (simp add: fetch_data_def fetch_general_def)
qed

theorem device_resident_hop_ignores_store_witness:
  "flags_partition partial5 \<and> \<not> full_cached partial5 \<and>
   list_all (\<lambda>j. j < node_num partial5 \<and> gpu_flag partial5 ! j) [2, 0] \<and>
   fetch_layer 0 (partial5\<lparr>graph := []\<rparr>) [2, 0] = fetch_layer 0 partial5 [2, 0] \<and>
   fetch_layer 0 partial5 [2, 0]
     = Inr [(''features'', \<lparr>size1 = 2, rows = [[30, 31], [50, 51]]\<rparr>)]"
proof -
  have a: "flags_partition partial5" by code_simp
  have b: "\<not> full_cached partial5" by (simp add: partial5_eq)
  have c: "list_all (\<lambda>j. j < node_num partial5 \<and> gpu_flag partial5 ! j) [2, 0]"
    by (simp add: partial5_eq)
  have d: "fetch_layer 0 partial5 [2, 0]
     = Inr [(''features'', \<lparr>size1 = 2, rows = [[30, 31], [50, 51]]\<rparr>)]" by code_simp
  show ?thesis
    using a b c d device_resident_hop_ignores_store [OF a b, of "[2, 0]" 0 "[]"]
    by simp
qed

subsection \<open>The fast path and the general path\<close>

lemma cache_rows_ok:
  "list_all (\<lambda>p. list_all (\<lambda>i. i < size0 (snd p)) idx) cache \<Longrightarrow>
   cache_rows cache idx =
     Inr (map (\<lambda>(name, c). (name, \<lparr>size1 = size1 c, rows = map (\<lambda>i. rows c ! i) idx\<rparr>)) cache)"
  by (induction cache idx rule: cache_rows.induct) (auto simp: index_rows_ok rbind_def)

lemma full_layout_consistent: "full_layout st \<Longrightarrow> cache_consistent st"
  by (auto simp: full_layout_def cache_consistent_def flags_partition_def arrays_sized_def
      list_all_iff)

lemma full_layout_layer:
  assumes "full_layout st" and "list_all (\<lambda>i. i < node_num st) tnid"
  shows "fetch_layer u st tnid = cache_layer st tnid"
proof -
  have flags: "gpu_flag st ! i \<and> \<not> cpu_flag st ! i \<and> localid2cacheid st ! i = i"
    if "i \<in> set tnid" for i
    using that assms by (auto simp: full_layout_def list_all_iff)
  have "\<not> list_ex (\<lambda>i. cpu_flag st ! i) tnid"
    using flags by (auto simp: list_ex_iff)
  then have g: "fetch_layer u st tnid =
     Inr (map (\<lambda>(name, c). (name, \<lparr>size1 = size1 c,
            rows = map (\<lambda>i. if gpu_flag st ! i then rows c ! (localid2cacheid st ! i)
                            else rows (the (map_of (graph st) name)) ! (nid_map st ! i)) tnid\<rparr>))
          (gpu_fix_cache st))"
    by (intro fetch_layer_rows [OF full_layout_consistent [OF assms(1)] assms(2)]) simp
  have r: "list_all (\<lambda>p. list_all (\<lambda>i. i < size0 (snd p)) tnid) (gpu_fix_cache st)"
    using assms by (fastforce simp: full_layout_def list_all_iff)
  have "map (\<lambda>(name, c). (name, \<lparr>size1 = size1 c,
            rows = map (\<lambda>i. if gpu_flag st ! i then rows c ! (localid2cacheid st ! i)
                            else rows (the (map_of (graph st) name)) ! (nid_map st ! i)) tnid\<rparr>))
          (gpu_fix_cache st)
        = map (\<lambda>(name, c). (name, \<lparr>size1 = size1 c, rows = map (\<lambda>i. rows c ! i) tnid\<rparr>))
          (gpu_fix_cache st)"
    using flags by (intro map_cong) (auto intro!: map_cong)
  then show ?thesis
    using g by (simp add: cache_layer_def cache_rows_ok [OF r])
qed

lemma loops_agree:
  assumes "\<forall>i \<in> set js. fetch_layer u st (layer_parent_nid nf ! i)
                          = cache_layer st (layer_parent_nid nf ! i)"
  shows "general_loop u js (st, nf) = cache_loop js (st, nf)"
  using assms
proof (induction js arbitrary: nf)
  case Nil
  then show ?case by simp
next
  case (Cons i js)
  have e: "fetch_layer u st (layer_parent_nid nf ! i) = cache_layer st (layer_parent_nid nf ! i)"
    using Cons.prems by simp
  show ?case
  proof (cases "cache_layer st (layer_parent_nid nf ! i)")
    case (Inl err)
    then show ?thesis using e by simp
  next
    case (Inr frame)
    have "general_loop u js (st, nf\<lparr>node_frames := (node_frames nf)[i := frame]\<rparr>)
            = cache_loop js (st, nf\<lparr>node_frames := (node_frames nf)[i := frame]\<rparr>)"
      using Cons.prems by (intro Cons.IH) simp
    then show ?thesis using e Inr by simp
  qed
qed

text \<open>
  C2, as the spec states it, fails. \<open>cache_fix_data\<close> called with \<open>is_full=True\<close> on
  the ids in the order 4, 3, 2, 1, 0 and the rows the store serves for them returns
  normally and sets \<open>full_cached\<close>. For the request of id 0 the fast path then reads row 0
  of the buffer, the row of id 4, where the general path reads the slot of id 0.
\<close>

theorem fast_path_counterexample:
  "get_feat_from_server server5 [4, 3, 2, 1, 0] [''features''] False
     = Inr [(''features'', \<lparr>size1 = 2, rows = [[10, 11], [20, 21], [30, 31], [40, 41], [50, 51]]\<rparr>)] \<and>
   snd (cache_fix_data server5 [4, 3, 2, 1, 0]
     [(''features'', \<lparr>size1 = 2, rows = [[10, 11], [20, 21], [30, 31], [40, 41], [50, 51]]\<rparr>)] True)
     = None \<and>
   full_cached (fst (cache_fix_data server5 [4, 3, 2, 1, 0]
     [(''features'', \<lparr>size1 = 2, rows = [[10, 11], [20, 21], [30, 31], [40, 41], [50, 51]]\<rparr>)] True)) \<and>
   node_frames (snd (fst (fetch_from_cache
     (fst (cache_fix_data server5 [4, 3, 2, 1, 0]
       [(''features'', \<lparr>size1 = 2, rows = [[10, 11], [20, 21], [30, 31], [40, 41], [50, 51]]\<rparr>)] True),
      \<lparr>layer_parent_nid = [[0]], node_frames = [[]]\<rparr>))))
     = [[(''features'', \<lparr>size1 = 2, rows = [[10, 11]]\<rparr>)]] \<and>
   node_frames (snd (fst (fetch_general 0
     (fst (cache_fix_data server5 [4, 3, 2, 1, 0]
       [(''features'', \<lparr>size1 = 2, rows = [[10, 11], [20, 21], [30, 31], [40, 41], [50, 51]]\<rparr>)] True),
      \<lparr>layer_parent_nid = [[0]], node_frames = [[]]\<rparr>))))
     = [[(''features'', \<lparr>size1 = 2, rows = [[50, 51]]\<rparr>)]]"
  by code_simp

text \<open>
  C2, amended. The fast path indexes the buffers by the id itself, not by its slot. When
  \<open>full_cached\<close> is true and the server has the layout of the full path of
  \<open>auto_cache\<close> (every id on the device and in the slot of its own number, \<open>dims\<close> the
  widths of the buffers, a row for every id), then for every node flow of local ids the
  fast path and the general path leave the same frames and the same outcome.
\<close>

theorem fast_path_equivalence:
  assumes "full_cached st" and "full_layout st"
    and "list_all (list_all (\<lambda>i. i < node_num st)) (layer_parent_nid nf)"
  shows "fetch_from_cache (st, nf) = fetch_general u (st, nf) \<and>
         fetch_data u (st, nf) = fetch_general u (st, nf)"
proof -
  have "\<forall>i \<in> set [0..<num_layers nf].
          fetch_layer u st (layer_parent_nid nf ! i) = cache_layer st (layer_parent_nid nf ! i)"
    using assms(3) by (auto simp: list_all_iff num_layers_def intro!: full_layout_layer [OF assms(2)])
  then have "general_loop u [0..<num_layers nf] (st, nf) = cache_loop [0..<num_layers nf] (st, nf)"
    by (rule loops_agree)
  then show ?thesis
    using assms(1) by (simp add: fetch_data_def fetch_general_def fetch_from_cache_def)
qed

theorem fast_path_equivalence_witness:
  "full_cached full5 \<and> full_layout full5 \<and>
   list_all (list_all (\<lambda>i. i < node_num full5)) [[4, 0, 2]] \<and>
   fetch_from_cache (full5, \<lparr>layer_parent_nid = [[4, 0, 2]], node_frames = [[]]\<rparr>)
     = fetch_general 0 (full5, \<lparr>layer_parent_nid = [[4, 0, 2]], node_frames = [[]]\<rparr>) \<and>
   node_frames (snd (fst (fetch_from_cache
       (full5, \<lparr>layer_parent_nid = [[4, 0, 2]], node_frames = [[]]\<rparr>))))
     = [[(''features'', \<lparr>size1 = 2, rows = [[10, 11], [50, 51], [30, 31]]\<rparr>)]]"
proof -
  have a: "full_cached full5" by (simp add: full5_eq)
  have b: "full_layout full5" by code_simp
  have c: "list_all (list_all (\<lambda>i. i < node_num full5))
             (layer_parent_nid \<lparr>layer_parent_nid = [[4, 0, 2]], node_frames = [[] :: int frame]\<rparr>)"
    by (simp add: full5_eq)
  have d: "node_frames (snd (fst (fetch_from_cache
       (full5, \<lparr>layer_parent_nid = [[4, 0, 2]], node_frames = [[]]\<rparr>))))
     = [[(''features'', \<lparr>size1 = 2, rows = [[10, 11], [50, 51], [30, 31]]\<rparr>)]]" by code_simp
  show ?thesis
    using a b c d fast_path_equivalence [OF a b c, of 0] by simp
qed

subsection \<open>The gather returns the rows of the store, in request order\<close>

lemma index_put_some:
  "i \<in> set idx \<Longrightarrow> length vs = length idx \<Longrightarrow> list_all (\<lambda>i. i < length xs) idx \<Longrightarrow>
   \<exists>k < length idx. idx ! k = i \<and> index_put xs idx vs ! i = vs ! k"
proof (induction xs idx vs rule: index_put.induct)
  case (1 xs j js v vs)
  show ?case
  proof (cases "i \<in> set js")
    case True
    then obtain k where "k < length js" "js ! k = i" "index_put (xs[j := v]) js vs ! i = vs ! k"
      using 1 by auto
    then show ?thesis by (intro exI [of _ "Suc k"]) simp
  next
    case False
    then have e: "i = j" using 1(2) by simp
    have "index_put (xs[j := v]) js vs ! j = (xs[j := v]) ! j"
      using False e by (intro nth_index_put_other) simp
    then show ?thesis using e 1(4) by (intro exI [of _ 0]) simp
  qed
qed auto

lemma learn_dims_keyed:
  "distinct names \<Longrightarrow> set names \<subseteq> set all \<Longrightarrow> set names \<inter> fst ` set (dims st) = {} \<Longrightarrow>
   dims (fst (learn_dims (map (\<lambda>k. (k, f k)) all) names st))
     = dims st @ map (\<lambda>k. (k, size1 (f k))) names \<and>
   snd (learn_dims (map (\<lambda>k. (k, f k)) all) names st) = None"
proof (induction names arbitrary: st)
  case Nil
  then show ?case by simp
next
  case (Cons k names)
  have g: "getitem (map (\<lambda>k. (k, f k)) all) k = Inr (f k)"
    using Cons.prems(2) map_of_keyed [of k all f] by (simp add: getitem_def)
  have u: "AList.update k (size1 (f k)) (dims st) = dims st @ [(k, size1 (f k))]"
    using Cons.prems(3) by (intro update_append) auto
  let ?st = "st\<lparr>dims := AList.update k (size1 (f k)) (dims st),
                 total_dim := total_dim st + size1 (f k)\<rparr>"
  have d: "set names \<inter> fst ` set (dims ?st) = {}"
    using Cons.prems(1,3) u by auto
  show ?case
    using Cons.IH [of ?st] Cons.prems(1,2) d g u by simp
qed

lemma store_fields_fresh:
  "distinct (map fst data) \<Longrightarrow> list_all (\<lambda>p. size0 (snd p) = n) data \<Longrightarrow>
   fst ` set data \<inter> fst ` set (gpu_fix_cache st) = {} \<Longrightarrow>
   \<forall>(k, t) \<in> set data. map_of (dims st) k = Some (size1 t) \<Longrightarrow>
   gpu_fix_cache (fst (store_fields n data st)) = gpu_fix_cache st @ data \<and>
   dims (fst (store_fields n data st)) = dims st"
proof (induction n data st rule: store_fields.induct)
  case (1 nrows st)
  then show ?case by simp
next
  case (2 nrows name t data st)
  have u: "AList.update name t (gpu_fix_cache st) = gpu_fix_cache st @ [(name, t)]"
    using 2(4) by (intro update_append) auto
  have v: "AList.update name (size1 t) (dims st) = dims st"
    using 2(5) by (intro update_triv) simp
  let ?st = "st\<lparr>dims := AList.update name (size1 t) (dims st),
                 gpu_fix_cache := AList.update name t (gpu_fix_cache st)\<rparr>"
  have ok: "nrows = size0 t" using 2(3) by simp
  have a: "fst ` set data \<inter> fst ` set (gpu_fix_cache ?st) = {}"
    using 2(2,4) u by auto
  have b: "\<forall>(k, t) \<in> set data. map_of (dims ?st) k = Some (size1 t)"
    using 2(5) v by simp
  have "gpu_fix_cache (fst (store_fields nrows data ?st)) = gpu_fix_cache ?st @ data \<and>
        dims (fst (store_fields nrows data ?st)) = dims ?st"
    using 2(2,3) a b ok by (intro 2(1)) simp_all
  then show ?case using ok u v by simp
qed

lemma general_loop_ok:
  assumes "\<forall>i \<in> set js. i < length (node_frames nf) \<and>
             fetch_layer u st (layer_parent_nid nf ! i) = Inr (F i)"
  shows "snd (general_loop u js (st, nf)) = None \<and>
         length (node_frames (snd (fst (general_loop u js (st, nf))))) = length (node_frames nf) \<and>
         (\<forall>i < length (node_frames nf).
            node_frames (snd (fst (general_loop u js (st, nf)))) ! i
              = (if i \<in> set js then F i else node_frames nf ! i))"
  using assms
proof (induction js arbitrary: nf)
  case Nil
  then show ?case by simp
next
  case (Cons j js)
  let ?nf = "nf\<lparr>node_frames := (node_frames nf)[j := F j]\<rparr>"
  have j: "j < length (node_frames nf)" "fetch_layer u st (layer_parent_nid nf ! j) = Inr (F j)"
    using Cons.prems by simp_all
  have p: "\<forall>i \<in> set js. i < length (node_frames ?nf) \<and>
             fetch_layer u st (layer_parent_nid ?nf ! i) = Inr (F i)"
    using Cons.prems by simp
  have s: "general_loop u (j # js) (st, nf) = general_loop u js (st, ?nf)"
    using j by simp
  show ?case
    unfolding s using Cons.IH [OF p] j(1) by (auto simp: nth_list_update)
qed

lemma populate_fresh:
  assumes fresh: "arrays_sized s" "gpu_flag s = replicate (node_num s) False"
      "cpu_flag s = replicate (node_num s) True" "gpu_fix_cache s = []"
      "dims s = map (\<lambda>k. (k, size1 (the (map_of (graph s) k)))) names"
    and env: "store_serves s" "distinct names" "set names \<subseteq> fst ` set (graph s)"
    and gf: "get_feat_from_server s nids names False = Inr d"
    and cf: "cache_fix_data s nids d f = (st, None)"
    and full: "f \<longrightarrow> nids = [0..<node_num s]"
  shows "cache_consistent st" and "store_has_cache_fields st" and "store_serves st"
    and "cache_mirrors_store st" and "map fst (gpu_fix_cache st) = names"
    and "full_cached st \<longrightarrow> full_layout st"
    and "graph st = graph s" and "nid_map st = nid_map s" and "node_num st = node_num s"
proof -
  let ?n = "node_num s"
  let ?col = "\<lambda>k. the (map_of (graph s) k)"
  let ?g = "\<lambda>k. gather (nid_map s) nids (?col k)"
  have st: "st = fst (cache_fix_data s nids d f)" and ok: "snd (cache_fix_data s nids d f) = None"
    using cf by simp_all
  have len: "length (cpu_flag s) = ?n" "length (gpu_flag s) = ?n" "length (localid2cacheid s) = ?n"
    using fresh(1) by (simp_all add: arrays_sized_def)
  have valid: "list_all (\<lambda>i. i < ?n) nids"
    using ok len by (simp add: cache_fix_data_error split: if_splits)
  have rowsok: "list_all (\<lambda>p. size0 (snd p) = length nids) d"
    using ok by (simp add: cache_fix_data_error split: if_splits)
  have d: "d = map (\<lambda>k. (k, ?g k)) names"
    using get_feat_from_server_eq [OF env(1) valid env(2,3), of False] gf by simp
  have keep: "graph st = graph s" "nid_map st = nid_map s" "node_num st = ?n"
    using cache_fix_data_keeps(1,3,2) [of s nids d f] st by simp_all
  have sl: "localid2cacheid st = index_put (localid2cacheid s) nids [0..<length nids]"
    and cflag: "cpu_flag st = index_fill (cpu_flag s) nids False"
    and gflag: "gpu_flag st = index_fill (gpu_flag s) nids True"
    and fc: "full_cached st = f"
    using cache_fix_data_slots [OF ok] st by simp_all
  let ?s1 = "s\<lparr>localid2cacheid := index_put (localid2cacheid s) nids [0..<length nids],
               cached_num := length nids\<rparr>"
  have dk: "distinct (map fst d)" using env(2) by (simp add: d comp_def)
  have dd: "\<forall>(k, t) \<in> set d. map_of (dims ?s1) k = Some (size1 t)"
    using map_of_keyed [of _ names "\<lambda>k. size1 (?col k)"]
    by (auto simp: d fresh(5) gather_def)
  have sf: "gpu_fix_cache (fst (store_fields (length nids) d ?s1)) = gpu_fix_cache ?s1 @ d \<and>
            dims (fst (store_fields (length nids) d ?s1)) = dims ?s1"
    using dk rowsok dd by (intro store_fields_fresh) (simp_all add: fresh(4))
  have cache: "gpu_fix_cache st = d" and dims: "dims st = dims s"
    using sf cache_fix_data_dims [OF ok] st by (simp_all add: fresh(4))
  show "graph st = graph s" "nid_map st = nid_map s" "node_num st = node_num s"
    by (rule keep)+
  show keys: "map fst (gpu_fix_cache st) = names"
    by (simp add: cache d comp_def)
  have gfl: "gpu_flag st ! i \<longleftrightarrow> i \<in> set nids" if "i < ?n" for i
    using that len gflag fresh(2) by (simp add: nth_index_fill)
  have cfl: "cpu_flag st ! i \<longleftrightarrow> i \<notin> set nids" if "i < ?n" for i
    using that len cflag fresh(3) by (simp add: nth_index_fill)
  have rng: "list_all (\<lambda>i. i < length (localid2cacheid s)) nids"
    using valid len by simp
  have slot: "\<exists>k < length nids. nids ! k = i \<and> localid2cacheid st ! i = k"
    if mem: "i \<in> set nids" for i
  proof -
    have "\<exists>k < length nids. nids ! k = i \<and>
            index_put (localid2cacheid s) nids [0..<length nids] ! i = [0..<length nids] ! k"
      using mem rng by (intro index_put_some) simp_all
    then obtain k where "k < length nids" "nids ! k = i"
        "index_put (localid2cacheid s) nids [0..<length nids] ! i = [0..<length nids] ! k"
      by blast
    then show ?thesis using sl by (intro exI [of _ k]) simp
  qed
  have sized: "arrays_sized st"
    using len keep(3) sl cflag gflag by (simp add: arrays_sized_def)
  have fp: "flags_partition st"
    using len keep(3) cflag gflag gfl cfl by (simp add: flags_partition_def list_all_iff)
  have dm: "dims st = map (\<lambda>(name, c). (name, size1 c)) (gpu_fix_cache st)"
    by (simp add: dims cache d fresh(5) comp_def gather_def)
  have inr: "localid2cacheid st ! i < size0 c"
    if p: "i < ?n" "gpu_flag st ! i" "(name, c) \<in> set (gpu_fix_cache st)" for i name c
  proof -
    have "i \<in> set nids" using gfl [of i] p(1,2) by simp
    then obtain k where "k < length nids" "localid2cacheid st ! i = k"
      using slot [of i] by blast
    moreover have "size0 c = length nids"
      using p(3) by (auto simp: cache d size0_def gather_def)
    ultimately show ?thesis by simp
  qed
  show "cache_consistent st"
    using sized fp dm dk cache inr keep(3)
    by (fastforce simp: cache_consistent_def list_all_iff)
  have inst: "map_of (graph s) k \<noteq> None" if "k \<in> set names" for k
    using that env(3) by (auto simp: map_of_eq_None_iff)
  show "store_has_cache_fields st"
    using inst by (auto simp: store_has_cache_fields_def list_all_iff cache d keep gather_def
        split: option.splits)
  show "store_serves st"
    using env(1) by (simp add: store_serves_def keep)
  have mir: "rows c ! (localid2cacheid st ! i) = rows (?col name) ! (nid_map s ! i)"
    if p: "i < ?n" "gpu_flag st ! i" "(name, c) \<in> set (gpu_fix_cache st)" for i name c
  proof -
    have "i \<in> set nids" using gfl [of i] p(1,2) by simp
    then obtain k where k: "k < length nids" "nids ! k = i" "localid2cacheid st ! i = k"
      using slot [of i] by blast
    have "c = ?g name" using p(3) by (auto simp: cache d)
    then show ?thesis using k by (simp add: gather_def)
  qed
  show "cache_mirrors_store st"
    unfolding cache_mirrors_store_def list_all_iff keep
  proof (intro ballI impI)
    fix i e assume i: "i \<in> set [0..<?n]" "gpu_flag st ! i" and e: "e \<in> set (gpu_fix_cache st)"
    obtain name c where nc: "e = (name, c)" by (cases e)
    have "name \<in> set names" using e nc by (auto simp: cache d)
    then obtain sc where sc: "map_of (graph s) name = Some sc" using inst by auto
    show "case e of (name, c) \<Rightarrow> (case map_of (graph s) name of None \<Rightarrow> False
            | Some s' \<Rightarrow> rows c ! (localid2cacheid st ! i) = rows s' ! (nid_map s ! i))"
      using mir [of i name c] i e nc sc by simp
  qed
  show "full_cached st \<longrightarrow> full_layout st"
  proof
    assume "full_cached st"
    then have ids: "nids = [0..<?n]" using fc full by simp
    have a: "gpu_flag st ! i \<and> \<not> cpu_flag st ! i \<and> localid2cacheid st ! i = i" if "i < ?n" for i
    proof -
      have "index_put (localid2cacheid s) [0..<?n] [0..<length [0..<?n]] ! ([0..<?n] ! i) = i"
        using that len by (intro nth_index_put_at) (simp_all add: list_all_iff)
      then show ?thesis using that gfl [of i] cfl [of i] sl ids by simp
    qed
    have b: "node_num st \<le> size0 c" if "(name, c) \<in> set (gpu_fix_cache st)" for name c
      using that ids by (auto simp: cache d size0_def gather_def keep)
    show "full_layout st"
      using sized a b dm dk cache keep(3) by (fastforce simp: full_layout_def list_all_iff)
  qed
qed

lemma populated_layer:
  assumes "cache_consistent st" and "store_has_cache_fields st" and "store_serves st"
    and "cache_mirrors_store st" and "list_all (\<lambda>i. i < node_num st) tnid"
  shows "fetch_layer u st tnid
           = Inr (map (\<lambda>(name, c). (name, gather (nid_map st) tnid (the (map_of (graph st) name))))
               (gpu_fix_cache st))"
proof -
  have hf: "\<exists>sc. map_of (graph st) name = Some sc \<and> size1 sc = size1 c"
    if e: "(name, c) \<in> set (gpu_fix_cache st)" for name c
  proof -
    have "case map_of (graph st) name of None \<Rightarrow> False | Some s \<Rightarrow> size1 s = size1 c"
      using assms(2) e unfolding store_has_cache_fields_def list_all_iff by blast
    then show ?thesis by (cases "map_of (graph st) name") simp_all
  qed
  have mir: "rows c ! (localid2cacheid st ! i) = rows sc ! (nid_map st ! i)"
    if e: "(name, c) \<in> set (gpu_fix_cache st)" and sc: "map_of (graph st) name = Some sc"
      and i: "i \<in> set tnid" "gpu_flag st ! i" for name c sc i
  proof -
    have "i < node_num st" using assms(5) i(1) by (simp add: list_all_iff)
    then have "i \<in> set [0..<node_num st]" by simp
    then have "list_all (\<lambda>(name, c). case map_of (graph st) name of
                    None \<Rightarrow> False
                  | Some s \<Rightarrow> rows c ! (localid2cacheid st ! i) = rows s ! (nid_map st ! i))
          (gpu_fix_cache st)"
      using assms(4) i(2) unfolding cache_mirrors_store_def list_all_iff by blast
    then have "case map_of (graph st) name of None \<Rightarrow> False
                  | Some s \<Rightarrow> rows c ! (localid2cacheid st ! i) = rows s ! (nid_map st ! i)"
      using e unfolding list_all_iff by blast
    then show ?thesis by (simp add: sc)
  qed
  have "map (\<lambda>(name, c). (name, \<lparr>size1 = size1 c,
            rows = map (\<lambda>i. if gpu_flag st ! i then rows c ! (localid2cacheid st ! i)
                            else rows (the (map_of (graph st) name)) ! (nid_map st ! i)) tnid\<rparr>))
          (gpu_fix_cache st)
      = map (\<lambda>(name, c). (name, gather (nid_map st) tnid (the (map_of (graph st) name))))
          (gpu_fix_cache st)"
  proof (rule map_cong [OF refl])
    fix e assume e: "e \<in> set (gpu_fix_cache st)"
    obtain name c where nc: "e = (name, c)" by (cases e)
    obtain sc where sc: "map_of (graph st) name = Some sc" "size1 sc = size1 c"
      using hf [of name c] e nc by blast
    have t: "the (map_of (graph st) name) = sc" using sc(1) by simp
    have m: "map (\<lambda>i. if gpu_flag st ! i then rows c ! (localid2cacheid st ! i)
                    else rows sc ! (nid_map st ! i)) tnid
            = map (\<lambda>i. rows sc ! (nid_map st ! i)) tnid"
    proof (rule map_cong [OF refl])
      fix i assume "i \<in> set tnid"
      then show "(if gpu_flag st ! i then rows c ! (localid2cacheid st ! i)
                    else rows sc ! (nid_map st ! i)) = rows sc ! (nid_map st ! i)"
        using mir [of name c sc i] e nc sc(1) by simp
    qed
    show "(case e of (name, c) \<Rightarrow> (name, \<lparr>size1 = size1 c,
            rows = map (\<lambda>i. if gpu_flag st ! i then rows c ! (localid2cacheid st ! i)
                            else rows (the (map_of (graph st) name)) ! (nid_map st ! i)) tnid\<rparr>))
        = (case e of (name, c) \<Rightarrow>
             (name, gather (nid_map st) tnid (the (map_of (graph st) name))))"
      unfolding nc prod.case t gather_def m sc(2) by (rule refl)
  qed
  moreover have "fetch_layer u st tnid =
     Inr (map (\<lambda>(name, c). (name, \<lparr>size1 = size1 c,
            rows = map (\<lambda>i. if gpu_flag st ! i then rows c ! (localid2cacheid st ! i)
                            else rows (the (map_of (graph st) name)) ! (nid_map st ! i)) tnid\<rparr>))
          (gpu_fix_cache st))"
    using assms(2,3) by (intro fetch_layer_rows [OF assms(1,5)]) simp
  ultimately show ?thesis by (simp only:)
qed

lemma init_field_dims:
  assumes "store_serves (init g n m gid)" and "0 < n" and "distinct names"
    and "set names \<subseteq> fst ` set g"
    and "init_field (init g n m gid) names = (s1, None)"
  shows "dims s1 = map (\<lambda>k. (k, size1 (the (map_of g k)))) names"
proof -
  let ?s0 = "init g n m gid"
  have v: "list_all (\<lambda>i. i < node_num ?s0) [0]" using assms(2) by (simp add: init_def)
  have g: "graph ?s0 = g" by (simp add: init_def)
  have gf: "get_feat_from_server ?s0 [0] names False
              = Inr (map (\<lambda>k. (k, gather (nid_map ?s0) [0] (the (map_of g k)))) names)"
    using get_feat_from_server_eq [OF assms(1) v assms(3), of False] assms(4) g by simp
  have "dims (fst (learn_dims (map (\<lambda>k. (k, gather (nid_map ?s0) [0] (the (map_of g k)))) names)
                names (?s0\<lparr>total_dim := 0\<rparr>)))
          = dims (?s0\<lparr>total_dim := 0\<rparr>)
              @ map (\<lambda>k. (k, size1 (gather (nid_map ?s0) [0] (the (map_of g k))))) names"
    using assms(3) by (intro conjunct1 [OF learn_dims_keyed]) (simp_all add: init_def)
  then show ?thesis
    using assms(5) gf by (simp add: init_field_def init_def gather_def)
qed

lemma auto_cache_populates:
  assumes fresh: "arrays_sized s" "gpu_flag s = replicate (node_num s) False"
      "cpu_flag s = replicate (node_num s) True" "gpu_fix_cache s = []"
      "dims s = map (\<lambda>k. (k, size1 (the (map_of (graph s) k)))) names"
    and env: "store_serves s" "distinct names" "set names \<subseteq> fst ` set (graph s)"
    and ac: "auto_cache argsort peak tot s degs names = (st, None)"
  shows "cache_consistent st" and "store_has_cache_fields st" and "store_serves st"
    and "cache_mirrors_store st" and "map fst (gpu_fix_cache st) = names"
    and "full_cached st \<longrightarrow> full_layout st"
    and "graph st = graph s" and "nid_map st = nid_map s" and "node_num st = node_num s"
proof -
  let ?c = "int_truediv (tot - peak - 512 * 1024 * 1024) (int (total_dim s * 4))"
  let ?s1 = "s\<lparr>capability := ?c\<rparr>"
  have td: "total_dim s \<noteq> 0"
    using ac by (auto simp: auto_cache_def split: if_splits)
  have f1: "arrays_sized ?s1" "gpu_flag ?s1 = replicate (node_num ?s1) False"
      "cpu_flag ?s1 = replicate (node_num ?s1) True" "gpu_fix_cache ?s1 = []"
      "dims ?s1 = map (\<lambda>k. (k, size1 (the (map_of (graph ?s1) k)))) names"
      "store_serves ?s1" "set names \<subseteq> fst ` set (graph ?s1)"
    using fresh env by (simp_all add: arrays_sized_def store_serves_def)
  obtain nids f where br: "(f \<longrightarrow> nids = [0..<node_num ?s1])"
      "auto_cache argsort peak tot s degs names =
         (case get_feat_from_server ?s1 nids names False of
            Inl e \<Rightarrow> (?s1, Some e)
          | Inr d \<Rightarrow> cache_fix_data ?s1 nids d f)"
  proof (cases "int (node_num s) < ?c")
    case True
    show ?thesis
      using td True by (intro that [of True "[0..<node_num s]"]) (simp_all add: auto_cache_def Let_def cong: sum.case_cong)
  next
    case False
    show ?thesis
      using td False
      by (intro that [of False "slice_to ?c (argsort degs)"]) (simp_all add: auto_cache_def Let_def cong: sum.case_cong)
  qed
  obtain d where d: "get_feat_from_server ?s1 nids names False = Inr d"
    using ac br(2) by (cases "get_feat_from_server ?s1 nids names False") auto
  have cf: "cache_fix_data ?s1 nids d f = (st, None)"
    using ac br(2) d by simp
  note r = populate_fresh [OF f1(1-6) env(2) f1(7) d cf br(1)]
  show "cache_consistent st" by (rule r(1))
  show "store_has_cache_fields st" by (rule r(2))
  show "store_serves st" by (rule r(3))
  show "cache_mirrors_store st" by (rule r(4))
  show "map fst (gpu_fix_cache st) = names" by (rule r(5))
  show "full_cached st \<longrightarrow> full_layout st" by (rule r(6))
  show "graph st = graph s" using r(7) by simp
  show "nid_map st = nid_map s" using r(8) by simp
  show "node_num st = node_num s" using r(9) by simp
qed

lemma fetch_data_general_loop:
  assumes "full_cached st \<longrightarrow> full_layout st"
    and "list_all (list_all (\<lambda>i. i < node_num st)) (layer_parent_nid nf)"
  shows "fetch_data u (st, nf) = general_loop u [0..<num_layers nf] (st, nf)"
proof (cases "full_cached st")
  case True
  then have fl: "full_layout st" using assms(1) by simp
  have "\<forall>i \<in> set [0..<num_layers nf].
          fetch_layer u st (layer_parent_nid nf ! i) = cache_layer st (layer_parent_nid nf ! i)"
    using assms(2) by (auto simp: list_all_iff num_layers_def intro!: full_layout_layer [OF fl])
  then have "general_loop u [0..<num_layers nf] (st, nf) = cache_loop [0..<num_layers nf] (st, nf)"
    by (rule loops_agree)
  then show ?thesis using True by (simp add: fetch_data_def fetch_from_cache_def)
next
  case False
  then show ?thesis by (simp add: fetch_data_def fetch_general_def)
qed

text \<open>
  C1, as the spec states it, fails: not every state after a successful population serves
  the rows of the store. After a second \<open>auto_cache\<close> that selects the ids 1 and 3, the
  ids 0 and 2 of the first population are still flagged as on the device, and the request
  of 0 and 2 is answered with the rows of 3 and 1. And after \<open>cache_fix_data\<close> with
  \<open>is_full=True\<close> on the ids in the order 4, 3, 2, 1, 0, with the rows the store serves
  for them, the request of id 0 is answered with the row of id 4.
\<close>

theorem stale_rows_counterexample:
  "auto_cache argsort_desc 8 536870936 server5 [3, 0, 5, 1, 2] [''features''] = (partial5, None) \<and>
   snd (auto_cache argsort_desc 8 536870936 partial5 [0, 5, 1, 3, 2] [''features'']) = None \<and>
   node_frames (snd (fst (fetch_data 0
     (fst (auto_cache argsort_desc 8 536870936 partial5 [0, 5, 1, 3, 2] [''features'']),
      \<lparr>layer_parent_nid = [[0, 2]], node_frames = [[]]\<rparr>))))
     = [[(''features'', \<lparr>size1 = 2, rows = [[20, 21], [40, 41]]\<rparr>)]] \<and>
   get_feat_from_server
     (fst (auto_cache argsort_desc 8 536870936 partial5 [0, 5, 1, 3, 2] [''features'']))
     [0, 2] [''features''] True
     = Inr [(''features'', \<lparr>size1 = 2, rows = [[50, 51], [30, 31]]\<rparr>)] \<and>
   get_feat_from_server server5 [4, 3, 2, 1, 0] [''features''] False
     = Inr [(''features'', \<lparr>size1 = 2, rows = [[10, 11], [20, 21], [30, 31], [40, 41], [50, 51]]\<rparr>)] \<and>
   snd (cache_fix_data server5 [4, 3, 2, 1, 0]
     [(''features'', \<lparr>size1 = 2, rows = [[10, 11], [20, 21], [30, 31], [40, 41], [50, 51]]\<rparr>)] True)
     = None \<and>
   node_frames (snd (fst (fetch_data 0
     (fst (cache_fix_data server5 [4, 3, 2, 1, 0]
       [(''features'', \<lparr>size1 = 2, rows = [[10, 11], [20, 21], [30, 31], [40, 41], [50, 51]]\<rparr>)] True),
      \<lparr>layer_parent_nid = [[0]], node_frames = [[]]\<rparr>))))
     = [[(''features'', \<lparr>size1 = 2, rows = [[10, 11]]\<rparr>)]] \<and>
   get_feat_from_server
     (fst (cache_fix_data server5 [4, 3, 2, 1, 0]
       [(''features'', \<lparr>size1 = 2, rows = [[10, 11], [20, 21], [30, 31], [40, 41], [50, 51]]\<rparr>)] True))
     [0] [''features''] True
     = Inr [(''features'', \<lparr>size1 = 2, rows = [[50, 51]]\<rparr>)]"
  by code_simp

text \<open>
  C1, amended. Let the store serve every local id of a server of at least one node and
  have the fields asked for, these without repetition; let the server be constructed and
  \<open>init_field\<close> return normally; and let it then be populated once: by \<open>auto_cache\<close>
  with the same fields (whatever the memory readings, the degrees and the sort), or by
  \<open>cache_fix_data\<close> with the rows that \<open>get_feat_from_server\<close> returns for the ids and
  the same fields, with \<open>is_full\<close> only when the ids are \<open>0, ..., node_num - 1\<close> in this
  order; and let the population return normally. Then for every node flow of local ids
  with a frame for every layer, \<open>fetch_data\<close> returns normally, and the frame of every
  layer has, for each field, the tensor whose row j is the row that the store holds for
  the global id of the j-th requested id: whether the id is served from the device cache
  or from the host, and on the fast path as on the general one.
\<close>

theorem order_preservation:
  assumes "store_serves (init g n m gid)" and "0 < n" and "distinct names"
    and "set names \<subseteq> fst ` set g"
    and "init_field (init g n m gid) names = (s1, None)"
    and "auto_cache argsort peak tot s1 degs names = (st, None) \<or>
         (get_feat_from_server s1 nids names False = Inr d \<and>
          cache_fix_data s1 nids d is_full = (st, None) \<and>
          (is_full \<longrightarrow> nids = [0..<n]))"
    and "length (node_frames nf) = num_layers nf"
    and "list_all (list_all (\<lambda>i. i < n)) (layer_parent_nid nf)"
  shows "snd (fetch_data u (st, nf)) = None \<and>
         (\<forall>i < num_layers nf.
            map fst (node_frames (snd (fst (fetch_data u (st, nf)))) ! i) = names \<and>
            (\<forall>name \<in> set names. \<exists>c. map_of g name = Some c \<and>
               map_of (node_frames (snd (fst (fetch_data u (st, nf)))) ! i) name
                 = Some (gather m (layer_parent_nid nf ! i) c)))"
proof -
  let ?s0 = "init g n m gid"
  let ?L = "num_layers nf"
  have s1: "s1 = fst (init_field ?s0 names)" using assms(5) by simp
  have k1: "graph s1 = g" "node_num s1 = n" "nid_map s1 = m"
      "cpu_flag s1 = replicate n True" "gpu_flag s1 = replicate n False"
      "gpu_fix_cache s1 = []" "localid2cacheid s1 = replicate n 0"
    using init_field_keeps [of ?s0 names] s1 by (simp_all add: init_def)
  have f1: "arrays_sized s1" "gpu_flag s1 = replicate (node_num s1) False"
      "cpu_flag s1 = replicate (node_num s1) True" "gpu_fix_cache s1 = []"
      "store_serves s1" "set names \<subseteq> fst ` set (graph s1)"
    using k1 assms(1,4) by (simp_all add: arrays_sized_def store_serves_def init_def)
  have d1: "dims s1 = map (\<lambda>k. (k, size1 (the (map_of (graph s1) k)))) names"
    using init_field_dims [OF assms(1-5)] k1(1) by simp
  have r: "cache_consistent st \<and> store_has_cache_fields st \<and> store_serves st \<and>
           cache_mirrors_store st \<and> map fst (gpu_fix_cache st) = names \<and>
           (full_cached st \<longrightarrow> full_layout st) \<and>
           graph st = graph s1 \<and> nid_map st = nid_map s1 \<and> node_num st = node_num s1"
    using assms(6)
  proof
    assume ac: "auto_cache argsort peak tot s1 degs names = (st, None)"
    show ?thesis
      using auto_cache_populates [OF f1(1-4) d1 f1(5) assms(3) f1(6) ac] by simp
  next
    assume p: "get_feat_from_server s1 nids names False = Inr d \<and>
          cache_fix_data s1 nids d is_full = (st, None) \<and> (is_full \<longrightarrow> nids = [0..<n])"
    have gf: "get_feat_from_server s1 nids names False = Inr d"
      and cf: "cache_fix_data s1 nids d is_full = (st, None)"
      and fl: "is_full \<longrightarrow> nids = [0..<node_num s1]"
      using p k1(2) by simp_all
    show ?thesis
      using populate_fresh [OF f1(1-4) d1 f1(5) assms(3) f1(6) gf cf fl] by simp
  qed
  have k: "graph st = g" "nid_map st = m" "node_num st = n"
    using r k1 by simp_all
  have rc: "cache_consistent st" and rh: "store_has_cache_fields st" and rs: "store_serves st"
    and rm: "cache_mirrors_store st" and rk: "map fst (gpu_fix_cache st) = names"
    and rf: "full_cached st \<longrightarrow> full_layout st"
    using r by simp_all
  let ?F = "\<lambda>i. map (\<lambda>k. (k, gather m (layer_parent_nid nf ! i) (the (map_of g k)))) names"
  have layer: "fetch_layer u st (layer_parent_nid nf ! i) = Inr (?F i)" if i: "i < ?L" for i
  proof -
    have v: "list_all (\<lambda>j. j < node_num st) (layer_parent_nid nf ! i)"
      using assms(8) i k(3) by (auto simp: list_all_iff num_layers_def)
    have "map (\<lambda>(name, c). (name, gather (nid_map st) (layer_parent_nid nf ! i)
                 (the (map_of (graph st) name)))) (gpu_fix_cache st)
            = map (\<lambda>k. (k, gather m (layer_parent_nid nf ! i) (the (map_of g k))))
                (map fst (gpu_fix_cache st))"
      by (simp add: k comp_def case_prod_beta)
    then show ?thesis
      using populated_layer [OF rc rh rs rm v, of u] rk by simp
  qed
  have "\<forall>i \<in> set [0..<?L]. i < length (node_frames nf) \<and>
          fetch_layer u st (layer_parent_nid nf ! i) = Inr (?F i)"
    using layer assms(7) by simp
  then have loop: "snd (general_loop u [0..<?L] (st, nf)) = None \<and>
         length (node_frames (snd (fst (general_loop u [0..<?L] (st, nf))))) = length (node_frames nf) \<and>
         (\<forall>i < length (node_frames nf).
            node_frames (snd (fst (general_loop u [0..<?L] (st, nf)))) ! i
              = (if i \<in> set [0..<?L] then ?F i else node_frames nf ! i))"
    by (rule general_loop_ok)
  have fd: "fetch_data u (st, nf) = general_loop u [0..<?L] (st, nf)"
    using rf assms(8) k(3) by (intro fetch_data_general_loop) simp_all
  have fr: "node_frames (snd (fst (fetch_data u (st, nf)))) ! i = ?F i" if "i < ?L" for i
    using loop that assms(7) fd by simp
  have col: "\<exists>c. map_of g name = Some c" if "name \<in> set names" for name
    using that assms(4) by (cases "map_of g name") (auto simp: map_of_eq_None_iff)
  show ?thesis
  proof (intro conjI allI impI ballI)
    show "snd (fetch_data u (st, nf)) = None" using loop fd by simp
  next
    fix i assume "i < ?L"
    then show "map fst (node_frames (snd (fst (fetch_data u (st, nf)))) ! i) = names"
      using fr by (simp add: comp_def)
  next
    fix i name assume i: "i < ?L" and n: "name \<in> set names"
    obtain c where c: "map_of g name = Some c" using col [OF n] by blast
    have "map_of (?F i) name = Some (gather m (layer_parent_nid nf ! i) (the (map_of g name)))"
      using n by (rule map_of_keyed)
    then show "\<exists>c. map_of g name = Some c \<and>
               map_of (node_frames (snd (fst (fetch_data u (st, nf)))) ! i) name
                 = Some (gather m (layer_parent_nid nf ! i) c)"
      using fr [OF i] c by simp
  qed
qed

theorem order_preservation_witness:
  "store_serves (init store5 5 [4, 3, 2, 1, 0] 0) \<and> (0::nat) < 5 \<and> distinct [''features''] \<and>
   set [''features''] \<subseteq> fst ` set store5 \<and>
   init_field (init store5 5 [4, 3, 2, 1, 0] 0) [''features''] = (server5, None) \<and>
   auto_cache argsort_desc 8 536870936 server5 [3, 0, 5, 1, 2] [''features''] = (partial5, None) \<and>
   snd (fetch_data 0 (partial5, \<lparr>layer_parent_nid = [[4, 0, 2]], node_frames = [[]]\<rparr>)) = None \<and>
   map_of (node_frames (snd (fst (fetch_data 0
       (partial5, \<lparr>layer_parent_nid = [[4, 0, 2]], node_frames = [[]]\<rparr>)))) ! 0) ''features''
     = Some \<lparr>size1 = 2, rows = [[10, 11], [50, 51], [30, 31]]\<rparr>"
proof -
  let ?nf = "\<lparr>layer_parent_nid = [[4, 0, 2]], node_frames = [[] :: int frame]\<rparr>"
  have h1: "store_serves (init store5 5 [4, 3, 2, 1, 0] 0)" by code_simp
  have h2: "(0::nat) < 5" by simp
  have h3: "distinct [''features'']" by simp
  have h4: "set [''features''] \<subseteq> fst ` set store5" by (simp add: store5_def)
  have "snd (init_field (init store5 5 [4, 3, 2, 1, 0] 0) [''features'']) = None" by code_simp
  then have h5: "init_field (init store5 5 [4, 3, 2, 1, 0] 0) [''features''] = (server5, None)"
    by (simp add: server5_def prod_eq_iff)
  have "snd (auto_cache argsort_desc 8 536870936 server5 [3, 0, 5, 1, 2] [''features'']) = None"
    by code_simp
  then have h6: "auto_cache argsort_desc 8 536870936 server5 [3, 0, 5, 1, 2] [''features'']
                   = (partial5, None)"
    by (simp add: partial5_def prod_eq_iff)
  have h6': "auto_cache argsort_desc 8 536870936 server5 [3, 0, 5, 1, 2] [''features'']
                   = (partial5, None) \<or>
         (get_feat_from_server server5 [] [''features''] False = Inr [] \<and>
          cache_fix_data server5 [] [] False = (partial5, None) \<and>
          (False \<longrightarrow> [] = [0..<5]))"
    using h6 by simp
  have h7: "length (node_frames ?nf) = num_layers ?nf" by (simp add: num_layers_def)
  have h8: "list_all (list_all (\<lambda>i. i < 5)) (layer_parent_nid ?nf)" by simp
  have c: "map_of store5 ''features''
             = Some \<lparr>size1 = 2, rows = [[10, 11], [20, 21], [30, 31], [40, 41], [50, 51]]\<rparr>"
    by (simp add: store5_def)
  have l: "(0::nat) < num_layers ?nf" by (simp add: num_layers_def)
  show ?thesis
    using h1 h3 h4 h5 h6 c l order_preservation [OF h1 h2 h3 h4 h5 h6' h7 h8, of 0]
    by (auto simp: gather_def)
qed

end
